theory Spec2Isabelle
  imports Main
begin

section \<open>The editable document tree\<close>

text \<open>
  The selection engine (class \<open>EditableSelection\<close>) works on a tree of
  \<open>EditableContent\<close> nodes whose leaves are \<open>EditableText\<close> nodes.  The tree
  classes are imported from \<open>../common/editable-content\<close>; the engine only uses
  their interface.  Objects are referenced by identity, so the tree is a store:
  a leaf reference is a \<open>tid\<close>, a container reference a \<open>cid\<close>, and the fields
  of an object are read from the store.
\<close>

type_synonym tid = nat
type_synonym cid = nat

datatype wmNodeType =
  Document | Text | Link | Item | Cell | Blockquote | Bulleted | Numbered | Row | Table

record text_node =
  t_value :: string
  t_type :: wmNodeType
  t_style :: "string list"
  t_url :: "string option"
  t_container :: cid
  t_removed :: bool

record content_node =
  c_content :: "tid list"
  c_type :: wmNodeType
  c_removed :: bool

record doc =
  texts :: "tid \<Rightarrow> text_node"
  conts :: "cid \<Rightarrow> content_node"
  flow :: "cid list"
  fresh :: tid

text \<open>
  \<open>flow\<close> lists the text containers of the tree in document order; \<open>fresh\<close>
  is the next unused leaf reference (object allocation).
\<close>

text \<open>
  The exceptions: a \<open>TypeError\<close> for a property read on null or undefined, and the
  exception a call or a property of the host document raises.
\<close>

datatype error = TypeError | HostError

fun index_of :: "'a list \<Rightarrow> 'a \<Rightarrow> nat" where
  "index_of [] x = 0"
| "index_of (y # ys) x = (if x = y then 0 else Suc (index_of ys x))"

text \<open>Modelled from the spec: \<open>length\<close> of a leaf, the number of characters of its value.\<close>

definition length_text :: "doc \<Rightarrow> tid \<Rightarrow> int" where
  "length_text d n = int (length (t_value (texts d n)))"

text \<open>Modelled from the spec: \<open>empty\<close> flag of a leaf.\<close>

definition empty_text :: "doc \<Rightarrow> tid \<Rightarrow> bool" where
  "empty_text d n = (t_value (texts d n) = [])"

text \<open>Modelled from the spec: \<open>content\<close> of the container owning a leaf (\<open>node.container.content\<close>).\<close>

definition siblings_of :: "doc \<Rightarrow> tid \<Rightarrow> tid list" where
  "siblings_of d n = c_content (conts d (t_container (texts d n)))"

text \<open>
  Modelled from the spec: the leaves of the tree in document order.  A node occurs once
  in a tree, hence \<open>remdups\<close>, which is the identity on a well-formed tree.
\<close>

definition leaf_order :: "doc \<Rightarrow> tid list" where
  "leaf_order d = remdups (concat (map (\<lambda>c. c_content (conts d c)) (flow d)))"

text \<open>
  Modelled from the spec: \<open>previousText(crossBoundary)\<close> and \<open>nextText(crossBoundary)\<close>,
  the adjacent leaf or null; without \<open>crossBoundary\<close> only within the owning container.
\<close>

definition previousText :: "doc \<Rightarrow> tid \<Rightarrow> bool \<Rightarrow> tid option" where
  "previousText d n traverse =
     (let xs = (if traverse then leaf_order d else remdups (siblings_of d n));
          i = index_of xs n
      in if 0 < i \<and> i < length xs then Some (xs ! (i - 1)) else None)"

definition nextText :: "doc \<Rightarrow> tid \<Rightarrow> bool \<Rightarrow> tid option" where
  "nextText d n traverse =
     (let xs = (if traverse then leaf_order d else remdups (siblings_of d n));
          i = index_of xs n
      in if Suc i < length xs then Some (xs ! Suc i) else None)"

text \<open>Modelled from the spec: \<open>siblings(other)\<close>, same immediate container.\<close>

definition siblings :: "doc \<Rightarrow> tid \<Rightarrow> tid \<Rightarrow> bool" where
  "siblings d a b = (t_container (texts d a) = t_container (texts d b))"

text \<open>
  Modelled from the spec: \<open>compare(other)\<close>, the ordering of two nodes in document order,
  negative when the receiver comes first.  A node's place is the place of its container
  in the flow followed by its rank in the container; a container comes before its leaves.
\<close>

definition place_text :: "doc \<Rightarrow> tid \<Rightarrow> nat \<times> nat" where
  "place_text d n =
     (index_of (flow d) (t_container (texts d n)), Suc (index_of (siblings_of d n) n))"

definition place_cont :: "doc \<Rightarrow> cid \<Rightarrow> nat \<times> nat" where
  "place_cont d c = (index_of (flow d) c, 0)"

definition compare_place :: "nat \<times> nat \<Rightarrow> nat \<times> nat \<Rightarrow> int" where
  "compare_place p q =
     (if p = q then 0
      else if fst p < fst q \<or> (fst p = fst q \<and> snd p < snd q) then - 1 else 1)"

definition compare_text :: "doc \<Rightarrow> tid \<Rightarrow> tid \<Rightarrow> int" where
  "compare_text d a b = (if a = b then 0 else compare_place (place_text d a) (place_text d b))"

definition compare_cont :: "doc \<Rightarrow> cid \<Rightarrow> tid \<Rightarrow> int" where
  "compare_cont d c b = compare_place (place_cont d c) (place_text d b)"

section \<open>The selection\<close>

text \<open>
  The fields of \<open>EditableSelection\<close>.  A null or undefined node is \<open>None\<close>.  The stack
  holds the saved absolute points; a point is a two-element array, and \<open>restore\<close> compares
  two of them by reference, so each carries the identity it was allocated with.  The head
  of the list is the top of the stack.
\<close>

record abs_point =
  ap_ident :: nat
  ap_node :: "cid option"
  ap_ofs :: int

record selection =
  start :: "tid option"
  startOfs :: int
  end_node :: "tid option"
  endOfs :: int
  modified :: bool
  stack :: "abs_point list"

definition valid :: "selection \<Rightarrow> bool" where
  "valid s = (start s \<noteq> None \<and> end_node s \<noteq> None)"

definition single :: "selection \<Rightarrow> bool" where
  "single s = (valid s \<and> start s = end_node s)"

definition multi :: "selection \<Rightarrow> bool" where
  "multi s = (\<not> single s)"

definition collapsed :: "selection \<Rightarrow> bool" where
  "collapsed s = (single s \<and> startOfs s = endOfs s)"

definition marked :: "selection \<Rightarrow> bool" where
  "marked s = modified s"

definition mark :: "selection \<Rightarrow> bool \<Rightarrow> selection" where
  "mark s m = s\<lparr>modified := (valid s \<and> m)\<rparr>"

definition setStart :: "doc \<Rightarrow> selection \<Rightarrow> tid option \<Rightarrow> int \<Rightarrow> selection" where
  "setStart d s node ofs =
     s\<lparr>start := node,
       startOfs := (case node of Some n \<Rightarrow> if ofs < 0 then length_text d n else ofs | None \<Rightarrow> ofs),
       modified := True\<rparr>"

definition setEnd :: "doc \<Rightarrow> selection \<Rightarrow> tid option \<Rightarrow> int \<Rightarrow> selection" where
  "setEnd d s node ofs =
     s\<lparr>end_node := node,
       endOfs := (case node of Some n \<Rightarrow> if ofs < 0 then length_text d n else ofs | None \<Rightarrow> ofs),
       modified := True\<rparr>"

definition set_sel ::
  "doc \<Rightarrow> selection \<Rightarrow> tid option \<Rightarrow> int \<Rightarrow> tid option \<Rightarrow> int \<Rightarrow> selection" where
  "set_sel d s st so en eo = setEnd d (setStart d s st so) en eo"

definition setCursor :: "doc \<Rightarrow> selection \<Rightarrow> tid option \<Rightarrow> int \<Rightarrow> selection" where
  "setCursor d s node ofs = set_sel d s node ofs node ofs"

definition collapse :: "doc \<Rightarrow> selection \<Rightarrow> selection" where
  "collapse d s = set_sel d s (start s) (startOfs s) (start s) (startOfs s)"

subsection \<open>Absolute and relative points\<close>

fun absPoint_loop :: "doc \<Rightarrow> tid \<Rightarrow> tid list \<Rightarrow> int \<Rightarrow> cid option \<times> int" where
  "absPoint_loop d node [] ofs = (None, 0)"
| "absPoint_loop d node (child # rest) ofs =
     (if child = node then (Some (t_container (texts d child)), ofs)
      else absPoint_loop d node rest (ofs + length_text d child))"

definition absPoint :: "doc \<Rightarrow> tid option \<Rightarrow> int \<Rightarrow> cid option \<times> int" where
  "absPoint d node ofs =
     (case node of
        None \<Rightarrow> (None, 0)
      | Some n \<Rightarrow>
          if t_removed (texts d n) then (None, 0)
          else absPoint_loop d n (siblings_of d n) ofs)"

fun relPoint_loop :: "doc \<Rightarrow> tid list \<Rightarrow> int \<Rightarrow> tid option \<times> int" where
  "relPoint_loop d [] ofs = (None, 0)"
| "relPoint_loop d (child # rest) ofs =
     (if ofs \<le> length_text d child then (Some child, ofs)
      else relPoint_loop d rest (ofs - length_text d child))"

definition relPoint :: "doc \<Rightarrow> cid option \<Rightarrow> int \<Rightarrow> tid option \<times> int" where
  "relPoint d node ofs =
     (case node of
        None \<Rightarrow> (None, 0)
      | Some c \<Rightarrow> relPoint_loop d (c_content (conts d c)) ofs)"

subsection \<open>Moving a point\<close>

lemma index_of_nth: "distinct xs \<Longrightarrow> i < length xs \<Longrightarrow> index_of xs (xs ! i) = i"
proof (induction xs arbitrary: i)
  case Nil
  then show ?case by simp
next
  case (Cons y ys)
  show ?case
  proof (cases i)
    case 0
    then show ?thesis by simp
  next
    case (Suc j)
    with Cons.prems have "ys ! j \<in> set ys" "y \<notin> set ys" "distinct ys" "j < length ys"
      by auto
    with Cons.IH [of j] Suc show ?thesis by auto
  qed
qed

lemma index_of_less: "x \<in> set xs \<Longrightarrow> index_of xs x < length xs"
  by (induction xs) auto

lemma index_of_absent: "x \<notin> set xs \<Longrightarrow> index_of xs x = length xs"
  by (induction xs) auto

lemma index_of_le: "index_of xs x \<le> length xs"
  by (induction xs) auto

lemma nth_index_of: "x \<in> set xs \<Longrightarrow> xs ! index_of xs x = x"
  by (induction xs) auto

lemma index_of_append_in: "x \<in> set xs \<Longrightarrow> index_of (xs @ ys) x = index_of xs x"
  by (induction xs) auto

lemma index_of_append_out: "x \<notin> set xs \<Longrightarrow> index_of (xs @ ys) x = length xs + index_of ys x"
  by (induction xs) auto

lemma distinct_leaf_order: "distinct (leaf_order d)"
  by (simp add: leaf_order_def)

lemma previousText_index:
  "previousText d n True = Some p \<Longrightarrow> index_of (leaf_order d) p < index_of (leaf_order d) n"
  by (auto simp: previousText_def Let_def index_of_nth distinct_leaf_order split: if_splits)

lemma nextText_index:
  "nextText d n True = Some p \<Longrightarrow>
     index_of (leaf_order d) p = Suc (index_of (leaf_order d) n) \<and>
     Suc (index_of (leaf_order d) n) < length (leaf_order d)"
  by (auto simp: nextText_def Let_def index_of_nth distinct_leaf_order split: if_splits)

text \<open>The first loop of \<open>movePoint\<close>: jumps on previous nodes while the offset is below 0.\<close>

function movePoint_back :: "doc \<Rightarrow> tid \<Rightarrow> int \<Rightarrow> tid \<times> int" where
  "movePoint_back d node offset =
     (if offset < 0 then
        (case previousText d node True of
           None \<Rightarrow> (node, 0)
         | Some prev \<Rightarrow>
             movePoint_back d prev
               ((if \<not> siblings d prev node then offset + 1 else offset) + length_text d prev))
      else (node, offset))"
  by pat_completeness auto
termination
  by (relation "measure (\<lambda>(d, node, offset). index_of (leaf_order d) node)")
    (auto dest: previousText_index)

text \<open>The second loop: jumps on next nodes while the offset is beyond the node's length.\<close>

function movePoint_forth :: "doc \<Rightarrow> tid \<Rightarrow> int \<Rightarrow> tid \<times> int" where
  "movePoint_forth d node offset =
     (if offset > length_text d node then
        (case nextText d node True of
           None \<Rightarrow> (node, length_text d node)
         | Some next \<Rightarrow>
             movePoint_forth d next
               ((if \<not> siblings d next node then offset - 1 else offset) - length_text d node))
      else (node, offset))"
  by pat_completeness auto
termination
  by (relation "measure (\<lambda>(d, node, offset). length (leaf_order d) - index_of (leaf_order d) node)")
    (auto dest: nextText_index)

declare movePoint_back.simps [simp del]
declare movePoint_forth.simps [simp del]

definition movePoint :: "doc \<Rightarrow> tid option \<Rightarrow> int \<Rightarrow> int \<Rightarrow> tid option \<times> int" where
  "movePoint d node offset delta =
     (case node of
        None \<Rightarrow> (None, offset)
      | Some n \<Rightarrow>
          (let (n1, o1) = movePoint_back d n (offset + delta);
               (n2, o2) = movePoint_forth d n1 o1
           in (Some n2, o2)))"

definition move :: "doc \<Rightarrow> selection \<Rightarrow> int \<Rightarrow> int option \<Rightarrow> selection" where
  "move d s deltaStart deltaEnd =
     (let st = movePoint d (start s) (startOfs s) deltaStart;
          en = (case deltaEnd of
                  None \<Rightarrow> st
                | Some de \<Rightarrow> movePoint d (end_node s) (endOfs s) de)
      in set_sel d s (fst st) (snd st) (fst en) (snd en))"

subsection \<open>Saving and restoring\<close>

definition save :: "doc \<Rightarrow> selection \<Rightarrow> selection" where
  "save d s =
     (let k = length (stack s);
          st = absPoint d (start s) (startOfs s);
          a = \<lparr>ap_ident = k, ap_node = fst st, ap_ofs = snd st\<rparr>
      in if collapsed s then s\<lparr>stack := a # a # stack s\<rparr>
         else
           (let en = absPoint d (end_node s) (endOfs s);
                b = \<lparr>ap_ident = Suc k, ap_node = fst en, ap_ofs = snd en\<rparr>
            in s\<lparr>stack := b # a # stack s\<rparr>))"

text \<open>
  \<open>restore\<close> reads \<open>absStart[0].removed\<close> and \<open>absEnd[0].removed\<close>: a null container
  there, or a missing second array, is a \<open>TypeError\<close>.
\<close>

definition restore :: "doc \<Rightarrow> selection \<Rightarrow> error + selection" where
  "restore d s =
     (case stack s of
        [] \<Rightarrow> Inr s
      | [absEnd] \<Rightarrow> Inl TypeError
      | absEnd # absStart # rest \<Rightarrow>
          (let s1 = s\<lparr>stack := rest\<rparr> in
           case ap_node absStart of
             None \<Rightarrow> Inl TypeError
           | Some cs \<Rightarrow>
               if c_removed (conts d cs) then Inr (set_sel d s1 None 0 None 0)
               else
                 (case ap_node absEnd of
                    None \<Rightarrow> Inl TypeError
                  | Some ce \<Rightarrow>
                      if c_removed (conts d ce) then Inr (set_sel d s1 None 0 None 0)
                      else if ap_ident absStart = ap_ident absEnd then
                        (let p = relPoint d (ap_node absStart) (ap_ofs absStart)
                         in Inr (setCursor d s1 (fst p) (snd p)))
                      else
                        (let p = relPoint d (ap_node absStart) (ap_ofs absStart);
                             s2 = setStart d s1 (fst p) (snd p);
                             q = relPoint d (ap_node absEnd) (ap_ofs absEnd)
                         in Inr (setEnd d s2 (fst q) (snd q))))))"

subsection \<open>Sorting\<close>

definition reversed :: "doc \<Rightarrow> selection \<Rightarrow> bool" where
  "reversed d s =
     (case (start s, end_node s) of
        (Some a, Some b) \<Rightarrow> (a = b \<and> startOfs s > endOfs s) \<or> compare_text d a b > 0
      | _ \<Rightarrow> False)"

definition sort_sel :: "doc \<Rightarrow> selection \<Rightarrow> selection" where
  "sort_sel d s =
     (if reversed d s then
        s\<lparr>start := end_node s, end_node := start s, startOfs := endOfs s, endOfs := startOfs s\<rparr>
      else s)"

subsection \<open>Trimming and word wrapping\<close>

definition trim :: "doc \<Rightarrow> selection \<Rightarrow> selection" where
  "trim d s =
     (case (start s, end_node s) of
        (Some a, Some b) \<Rightarrow>
          (let s1 = (if endOfs s = 0 then
                       (case previousText d b True of
                          Some e \<Rightarrow> setEnd d s (Some e) (- 1)
                        | None \<Rightarrow> s)
                     else s)
           in if collapsed s1 then s1
              else
                (case start s1 of
                   Some a1 \<Rightarrow>
                     if startOfs s1 = length_text d a1 then
                       (case nextText d a1 True of
                          Some n \<Rightarrow> setStart d s1 (Some n) 0
                        | None \<Rightarrow> s1)
                     else s1
                 | None \<Rightarrow> s1))
      | _ \<Rightarrow> s)"

text \<open>
  \<open>edges\<close> scans the matches of the regular expression \<open>\b\<close>: the offsets where a word
  character (letter, digit or underscore) meets a non-word character or an end of the string.
\<close>

definition word_char :: "char \<Rightarrow> bool" where
  "word_char c =
     (let k = (of_char c :: nat)
      in (48 \<le> k \<and> k \<le> 57) \<or> (65 \<le> k \<and> k \<le> 90) \<or> k = 95 \<or> (97 \<le> k \<and> k \<le> 122))"

definition word_at :: "string \<Rightarrow> nat \<Rightarrow> bool" where
  "word_at v i = (i < length v \<and> word_char (v ! i))"

definition boundaries :: "string \<Rightarrow> nat list" where
  "boundaries v =
     filter (\<lambda>i. (0 < i \<and> word_at v (i - 1)) \<noteq> word_at v i) [0 ..< Suc (length v)]"

definition edges :: "string \<Rightarrow> int \<Rightarrow> int \<times> int" where
  "edges v index =
     fold (\<lambda>offset (before_ofs, after_ofs).
             (if int offset \<le> index \<and> int offset > before_ofs then int offset else before_ofs,
              if int offset \<ge> index \<and> int offset < after_ofs then int offset else after_ofs))
       (boundaries v) (0, int (length v))"

definition whole :: "doc \<Rightarrow> selection \<Rightarrow> bool" where
  "whole d s =
     (case end_node s of
        Some b \<Rightarrow> valid s \<and> startOfs s = 0 \<and> endOfs s = length_text d b
      | None \<Rightarrow> False)"

definition wordWrap :: "doc \<Rightarrow> selection \<Rightarrow> selection" where
  "wordWrap d s =
     (case (start s, end_node s) of
        (Some a, Some b) \<Rightarrow>
          (let e = edges (t_value (texts d a)) (startOfs s)
           in if collapsed s then set_sel d s (Some a) (fst e) (Some a) (snd e)
              else mark (s\<lparr>startOfs := fst e,
                           endOfs := snd (edges (t_value (texts d b)) (endOfs s))\<rparr>) True)
      | _ \<Rightarrow> s)"

section \<open>Synchronising with the host document\<close>

text \<open>
  The host \<open>Document\<close> is outside the program.  What \<open>query\<close> sees of it is whether
  getting its selection range (\<open>getSelection\<close>, \<open>rangeCount\<close>, \<open>getRangeAt\<close>, the
  \<open>collapsed\<close> flag) raises, yields no range, or yields a range with its \<open>collapsed\<close> flag
  and its two boundary points.  A DOM text node carries the tree node its parent element's
  id names, if any, and the length of its text; an element its children.  \<open>DomFails\<close> is a
  node the host does not let read: reading the boundary point it stands for, or a property
  of the node, raises.
\<close>

datatype dom = DomText "tid option" nat | DomElement "dom list" | DomOther | DomFails

datatype host_selection =
  Raises | NoRange | Range bool "dom option" int "dom option" int

datatype returned = ReturnsNull | ReturnsThis

fun textContent_length :: "dom \<Rightarrow> nat" where
  "textContent_length (DomText p n) = n"
| "textContent_length (DomElement cs) = sum_list (map textContent_length cs)"
| "textContent_length DomOther = 0"
| "textContent_length DomFails = 0"

text \<open>Modelled from the spec: \<open>walkTree(identifier)\<close> locates a node of the tree by its identifier.\<close>

definition walkTree :: "doc \<Rightarrow> tid option \<Rightarrow> tid option" where
  "walkTree d i =
     (case i of None \<Rightarrow> None | Some n \<Rightarrow> if n \<in> set (leaf_order d) then Some n else None)"

fun fromDom_node :: "doc \<Rightarrow> dom \<Rightarrow> int \<Rightarrow> error + tid option \<times> int"
  and fromDom_children :: "doc \<Rightarrow> dom list \<Rightarrow> int \<Rightarrow> error + tid option \<times> int" where
  "fromDom_node d (DomText p n) offset =
     (case walkTree d p of
        None \<Rightarrow> Inr (None, 0)
      | Some txt \<Rightarrow>
          if t_type (texts d txt) \<noteq> Text \<and> t_type (texts d txt) \<noteq> Link then Inr (None, 0)
          else Inr (Some txt, if empty_text d txt then 0 else offset))"
| "fromDom_node d DomOther offset = Inr (None, 0)"
| "fromDom_node d DomFails offset = Inl HostError"
| "fromDom_node d (DomElement cs) offset =
     (if cs = [] then Inr (None, 0) else fromDom_children d cs offset)"
| "fromDom_children d [] offset = Inr (None, offset)"
| "fromDom_children d (c # cs) offset =
     (if c = DomFails then Inl HostError
      else if c = DomOther then fromDom_children d cs offset
      else if offset \<le> int (textContent_length c) then fromDom_node d c offset
      else fromDom_children d cs (offset - int (textContent_length c)))"

definition fromDom :: "doc \<Rightarrow> dom option \<Rightarrow> int \<Rightarrow> error + tid option \<times> int" where
  "fromDom d node offset =
     (case node of None \<Rightarrow> Inr (None, 0) | Some n \<Rightarrow> fromDom_node d n offset)"

text \<open>
  The \<open>try\<close> block of \<open>query\<close>: the exception it raises, if any, and the selection at that
  moment.  The selection is updated in place, so what was assigned before the exception
  stays assigned.  The arguments of a call are read before the call: the boundary point is
  read and mapped by \<open>fromDom\<close> before \<open>setCursor\<close>, \<open>setStart\<close> or \<open>setEnd\<close> assigns.
  Only the host raises here; the assignments and \<open>sort\<close> use the tree alone.
\<close>

definition query_try :: "doc \<Rightarrow> host_selection \<Rightarrow> selection \<Rightarrow> error option \<times> selection" where
  "query_try d h s =
     (case h of
        Raises \<Rightarrow> (Some HostError, s)
      | NoRange \<Rightarrow> (None, setCursor d s None 0)
      | Range coll sc so ec eo \<Rightarrow>
          if coll then
            (case fromDom d sc so of
               Inl e \<Rightarrow> (Some e, s)
             | Inr p \<Rightarrow> (None, setCursor d s (fst p) (snd p)))
          else
            (case fromDom d sc so of
               Inl e \<Rightarrow> (Some e, s)
             | Inr p \<Rightarrow>
                 (let s1 = setStart d s (fst p) (snd p) in
                  case fromDom d ec eo of
                    Inl e \<Rightarrow> (Some e, s1)
                  | Inr q \<Rightarrow> (None, sort_sel d (setEnd d s1 (fst q) (snd q))))))"

text \<open>The \<open>catch\<close> block is empty: whatever the \<open>try\<close> block raised, \<open>query\<close> goes on.\<close>

definition query :: "doc \<Rightarrow> host_selection option \<Rightarrow> selection \<Rightarrow> returned \<times> selection" where
  "query d host s =
     (case host of
        None \<Rightarrow> (ReturnsNull, s)
      | Some h \<Rightarrow> (ReturnsThis, mark (snd (query_try d h s)) False))"

section \<open>Editing\<close>

subsection \<open>Primitives of the tree\<close>

text \<open>Modelled from the spec: \<open>insert(char, offset)\<close> on a leaf puts the characters at the offset.\<close>

definition insert_text :: "doc \<Rightarrow> tid \<Rightarrow> string \<Rightarrow> int \<Rightarrow> doc" where
  "insert_text d n char ofs =
     d\<lparr>texts := (texts d)(n := (texts d n)
          \<lparr>t_value := take (nat ofs) (t_value (texts d n)) @ char @
                       drop (nat ofs) (t_value (texts d n))\<rparr>)\<rparr>"

fun insert_after :: "'a \<Rightarrow> 'a \<Rightarrow> 'a list \<Rightarrow> 'a list" where
  "insert_after x y [] = [y]"
| "insert_after x y (z # zs) = (if z = x then z # y # zs else z # insert_after x y zs)"

text \<open>
  Modelled from the spec: \<open>createTextNext(value, style)\<close> creates a plain-text leaf right
  after the receiver, in the same container, and returns it.
\<close>

definition createTextNext :: "doc \<Rightarrow> tid \<Rightarrow> string \<Rightarrow> string list \<Rightarrow> doc \<times> tid" where
  "createTextNext d n v st =
     (let f = fresh d;
          c = t_container (texts d n);
          node = \<lparr>t_value = v, t_type = Text, t_style = st, t_url = None,
                  t_container = c, t_removed = False\<rparr>
      in (d\<lparr>texts := (texts d)(f := node),
            conts := (conts d)(c := (conts d c)
              \<lparr>c_content := insert_after n f (c_content (conts d c))\<rparr>),
            fresh := Suc f\<rparr>, f))"

fun insert_before :: "'a \<Rightarrow> 'a \<Rightarrow> 'a list \<Rightarrow> 'a list" where
  "insert_before x y [] = [y]"
| "insert_before x y (z # zs) = (if z = x then y # z # zs else z # insert_before x y zs)"

text \<open>Modelled from the spec: \<open>createTextPrev(value, style)\<close>, the same right before the receiver.\<close>

definition createTextPrev :: "doc \<Rightarrow> tid \<Rightarrow> string \<Rightarrow> string list \<Rightarrow> doc \<times> tid" where
  "createTextPrev d n v st =
     (let f = fresh d;
          c = t_container (texts d n);
          node = \<lparr>t_value = v, t_type = Text, t_style = st, t_url = None,
                  t_container = c, t_removed = False\<rparr>
      in (d\<lparr>texts := (texts d)(f := node),
            conts := (conts d)(c := (conts d c)
              \<lparr>c_content := insert_before n f (c_content (conts d c))\<rparr>),
            fresh := Suc f\<rparr>, f))"

text \<open>
  Modelled from the spec: a leaf sits at its container's first (last) boundary when no leaf
  comes before (after) it in the container.
\<close>

definition first_text :: "doc \<Rightarrow> tid \<Rightarrow> bool" where
  "first_text d n = (previousText d n False = None)"

definition last_text :: "doc \<Rightarrow> tid \<Rightarrow> bool" where
  "last_text d n = (nextText d n False = None)"

text \<open>
  Modelled from the spec: \<open>link(url|null)\<close> turns a leaf into a hyperlink run with the given
  target, or with null clears its link status.
\<close>

definition link_text :: "doc \<Rightarrow> tid \<Rightarrow> string option \<Rightarrow> doc" where
  "link_text d n url =
     d\<lparr>texts := (texts d)(n := (texts d n)
          \<lparr>t_type := (case url of None \<Rightarrow> Text | Some u \<Rightarrow> Link), t_url := url\<rparr>)\<rparr>"

text \<open>
  Modelled from the spec: \<open>defrag()\<close> of a container merges adjacent leaves sharing
  identical attributes; the first leaf of a run takes the text of the others, which leave
  the tree.
\<close>

definition same_attributes :: "doc \<Rightarrow> tid \<Rightarrow> tid \<Rightarrow> bool" where
  "same_attributes d a b =
     (t_type (texts d a) = t_type (texts d b) \<and> t_style (texts d a) = t_style (texts d b) \<and>
      t_url (texts d a) = t_url (texts d b))"

definition absorb :: "doc \<Rightarrow> tid \<Rightarrow> tid \<Rightarrow> doc" where
  "absorb d a b =
     d\<lparr>texts := (texts d)
          (b := (texts d b)\<lparr>t_removed := True\<rparr>,
           a := (texts d a)\<lparr>t_value := t_value (texts d a) @ t_value (texts d b)\<rparr>)\<rparr>"

fun defrag_list :: "doc \<Rightarrow> tid list \<Rightarrow> doc \<times> tid list" where
  "defrag_list d [] = (d, [])"
| "defrag_list d [a] = (d, [a])"
| "defrag_list d (a # b # rest) =
     (if same_attributes d a b then defrag_list (absorb d a b) (a # rest)
      else (let (d', ys) = defrag_list d (b # rest) in (d', a # ys)))"

definition defrag_cont :: "cid \<Rightarrow> doc \<Rightarrow> doc" where
  "defrag_cont c d =
     (let (d', ys) = defrag_list d (c_content (conts d c))
      in d'\<lparr>conts := (conts d')(c := (conts d' c)\<lparr>c_content := ys\<rparr>)\<rparr>)"

text \<open>Modelled from the spec: \<open>lastChild()\<close> of a container, and the node that follows a leaf.\<close>

definition lastChild :: "doc \<Rightarrow> cid \<Rightarrow> tid option" where
  "lastChild d c = (case c_content (conts d c) of [] \<Rightarrow> None | xs \<Rightarrow> Some (last xs))"

definition next_node :: "doc \<Rightarrow> tid \<Rightarrow> tid option" where
  "next_node d n = nextText d n True"

text \<open>
  The other primitives of the tree the engine calls restructure it in ways no claim
  depends on; they are parameters of the operations that call them.  The ancestors of the
  containers (lists, quotes, tables) are referenced by numbers of their own.
\<close>

record prims =
  p_extract :: "doc \<Rightarrow> tid \<Rightarrow> int \<Rightarrow> int \<Rightarrow> doc"
  p_cut :: "doc \<Rightarrow> tid \<Rightarrow> int \<Rightarrow> int option \<Rightarrow> doc"
  p_merge :: "doc \<Rightarrow> tid \<Rightarrow> tid \<Rightarrow> doc"
  p_split :: "doc \<Rightarrow> tid \<Rightarrow> int \<Rightarrow> int option \<Rightarrow> doc \<times> tid"
  p_join :: "doc \<Rightarrow> tid \<Rightarrow> tid \<Rightarrow> doc"
  p_climb :: "doc \<Rightarrow> tid \<Rightarrow> wmNodeType list \<Rightarrow> wmNodeType option"
  p_indent :: "wmNodeType \<Rightarrow> cid \<Rightarrow> doc \<Rightarrow> doc"
  p_unindent :: "wmNodeType \<Rightarrow> cid \<Rightarrow> doc \<Rightarrow> doc"
  p_fragment :: "doc \<Rightarrow> tid \<Rightarrow> tid \<Rightarrow> doc"
  p_firstDescendant :: "doc \<Rightarrow> tid"
  p_lastDescendant :: "doc \<Rightarrow> tid"
  p_break :: "doc \<Rightarrow> tid \<Rightarrow> doc \<times> tid"
  p_format :: "string list \<Rightarrow> tid \<Rightarrow> doc \<Rightarrow> doc"
  p_unformat :: "string list \<Rightarrow> tid \<Rightarrow> doc \<Rightarrow> doc"
  p_ancestor :: "doc \<Rightarrow> tid \<Rightarrow> nat \<Rightarrow> nat option"
  p_compare_block :: "doc \<Rightarrow> nat \<Rightarrow> tid \<Rightarrow> int"
  p_indent_block :: "doc \<Rightarrow> nat \<Rightarrow> wmNodeType \<Rightarrow> doc \<times> nat"
  p_nextSibling :: "doc \<Rightarrow> nat \<Rightarrow> nat option"

subsection \<open>Loops over the selection\<close>

partial_function (option) nodes_loop ::
  "(tid \<Rightarrow> doc \<Rightarrow> doc) \<Rightarrow> tid \<Rightarrow> tid option \<Rightarrow> doc \<Rightarrow> doc option" where
  "nodes_loop callbackfn e node d =
     (case node of
        None \<Rightarrow> Some d
      | Some n \<Rightarrow>
          if compare_text d n e \<le> 0 then
            (let d' = callbackfn n d in nodes_loop callbackfn e (nextText d' n True) d')
          else Some d)"

declare nodes_loop.simps [code]

definition nodes :: "(tid \<Rightarrow> doc \<Rightarrow> doc) \<Rightarrow> doc \<Rightarrow> selection \<Rightarrow> doc option" where
  "nodes callbackfn d s =
     (case (start s, end_node s) of
        (Some a, Some b) \<Rightarrow> nodes_loop callbackfn b (Some a) d
      | _ \<Rightarrow> Some d)"

text \<open>
  In \<open>containers\<close> the step \<open>container.lastChild().next()\<close> is a \<open>TypeError\<close> on a
  container without children.
\<close>

partial_function (option) containers_loop ::
  "(cid \<Rightarrow> doc \<Rightarrow> doc) \<Rightarrow> tid \<Rightarrow> cid option \<Rightarrow> doc \<Rightarrow> (error + doc) option" where
  "containers_loop callbackfn e container d =
     (case container of
        None \<Rightarrow> Some (Inr d)
      | Some c \<Rightarrow>
          if compare_cont d c e < 0 then
            (let d' = callbackfn c d in
             case lastChild d' c of
               None \<Rightarrow> Some (Inl TypeError)
             | Some l \<Rightarrow>
                 containers_loop callbackfn e
                   (map_option (\<lambda>n. t_container (texts d' n)) (next_node d' l)) d')
          else Some (Inr d))"

declare containers_loop.simps [code]

definition containers ::
  "(cid \<Rightarrow> doc \<Rightarrow> doc) \<Rightarrow> doc \<Rightarrow> selection \<Rightarrow> (error + doc) option" where
  "containers callbackfn d s =
     (case (start s, end_node s) of
        (Some a, Some b) \<Rightarrow> containers_loop callbackfn b (Some (t_container (texts d a))) d
      | _ \<Rightarrow> Some (Inr d))"

subsection \<open>Operations\<close>

text \<open>
  An operation returns the tree and the selection it leaves, or the exception it raises;
  one that loops over the tree returns \<open>None\<close> when the loop does not end.
\<close>

definition delete :: "prims \<Rightarrow> doc \<Rightarrow> selection \<Rightarrow> doc \<times> selection" where
  "delete P d s =
     (case (start s, end_node s) of
        (Some a, Some b) \<Rightarrow>
          (let d1 = (if single s then p_extract P d a (startOfs s) (endOfs s)
                     else p_cut P (p_cut P d a 0 (Some (startOfs s))) b (endOfs s) None)
           in if single s \<and> \<not> empty_text d1 a then (d1, collapse d1 s)
              else
                (let a1 = (if empty_text d1 a then
                             (case previousText d1 a False of Some p \<Rightarrow> p | None \<Rightarrow> a)
                           else a);
                     b1 = (if empty_text d1 b then
                             (case nextText d1 b False of Some n \<Rightarrow> n | None \<Rightarrow> b)
                           else b);
                     ofs = length_text d1 a1;
                     d2 = p_merge P d1 a1 b1
                 in (d2, setCursor d2 (s\<lparr>start := Some a1, end_node := Some b1\<rparr>) (Some a1) ofs)))
      | _ \<Rightarrow> (d, s))"

definition insert_sel :: "prims \<Rightarrow> doc \<Rightarrow> selection \<Rightarrow> string \<Rightarrow> error + doc \<times> selection" where
  "insert_sel P d s char =
     (if \<not> valid s then Inr (d, s)
      else
        (let (d1, s1) = (if \<not> collapsed s then delete P d s else (d, s)) in
         case start s1 of
           None \<Rightarrow> Inl TypeError
         | Some a \<Rightarrow>
             (let (d2, s2) =
                    (if t_type (texts d1 a) = Link \<and> startOfs s1 = length_text d1 a then
                       (case nextText d1 a False of
                          Some n \<Rightarrow> (d1, setCursor d1 s1 (Some n) 0)
                        | None \<Rightarrow>
                            (let (d', n) = createTextNext d1 a [] []
                             in (d', setCursor d' s1 (Some n) 0)))
                     else (d1, s1)) in
              case start s2 of
                None \<Rightarrow> Inl TypeError
              | Some b \<Rightarrow>
                  (let d3 = insert_text d2 b char (startOfs s2)
                   in Inr (d3, move d3 s2 (int (length char)) None)))))"

definition defrag :: "doc \<Rightarrow> selection \<Rightarrow> (error + doc \<times> selection) option" where
  "defrag d s =
     (if \<not> valid s then Some (Inr (d, s))
      else
        (let s1 = save d s in
         case containers defrag_cont d s1 of
           None \<Rightarrow> None
         | Some (Inl e) \<Rightarrow> Some (Inl e)
         | Some (Inr d1) \<Rightarrow>
             (case restore d1 s1 of
                Inl e \<Rightarrow> Some (Inl e)
              | Inr s2 \<Rightarrow> Some (Inr (d1, trim d1 s2)))))"

definition unlink :: "doc \<Rightarrow> selection \<Rightarrow> (error + doc \<times> selection) option" where
  "unlink d s =
     (if \<not> valid s then Some (Inr (d, s))
      else
        (case nodes (\<lambda>node d. link_text d node None) d s of
           None \<Rightarrow> None
         | Some d1 \<Rightarrow> defrag d1 s))"

definition split :: "prims \<Rightarrow> doc \<Rightarrow> selection \<Rightarrow> doc \<times> selection" where
  "split P d s =
     (case (start s, end_node s) of
        (Some a, Some b) \<Rightarrow>
          if single s then
            (let (d1, node) = p_split P d a (startOfs s) (Some (endOfs s))
             in (d1, set_sel d1 s (Some node) 0 (Some node) (- 1)))
          else
            (let (d1, st) = p_split P d a (startOfs s) None;
                 (d2, en) = p_split P d1 b 0 (Some (endOfs s))
             in (d2, set_sel d2 s (Some st) 0 (Some en) (- 1)))
      | _ \<Rightarrow> (d, s))"

partial_function (option) link_join ::
  "prims \<Rightarrow> tid \<Rightarrow> tid \<Rightarrow> tid option \<Rightarrow> doc \<Rightarrow> doc option" where
  "link_join P a b node d =
     (case node of
        None \<Rightarrow> Some d
      | Some n \<Rightarrow>
          if compare_text d n b \<le> 0 then
            (let d' = p_join P d a n
             in if n = b then Some d' else link_join P a b (nextText d' a True) d')
          else Some d)"

declare link_join.simps [code]

text \<open>A url is falsy when it is null, undefined or the empty string.\<close>

definition falsy :: "string option \<Rightarrow> bool" where
  "falsy url = (case url of None \<Rightarrow> True | Some u \<Rightarrow> u = [])"

definition link :: "prims \<Rightarrow> doc \<Rightarrow> selection \<Rightarrow> string option \<Rightarrow> (error + doc \<times> selection) option" where
  "link P d s url =
     (if falsy url then unlink d s
      else if \<not> valid s then Some (Inr (d, s))
      else
        (let s1 = (if collapsed s then wordWrap d s else s);
             (d2, s2) = split P d (trim d s1) in
         case (start s2, end_node s2) of
           (Some a, Some b) \<Rightarrow>
             (case (if multi s2 then link_join P a b (nextText d2 a True) d2 else Some d2) of
                None \<Rightarrow> None
              | Some d3 \<Rightarrow>
                  (let d4 = link_text d3 a url
                   in Some (Inr (d4, set_sel d4 s2 (Some a) 0 (Some a) (- 1)))))
         | _ \<Rightarrow> Some (Inl TypeError)))"

definition unindent :: "prims \<Rightarrow> doc \<Rightarrow> selection \<Rightarrow> (error + doc \<times> selection) option" where
  "unindent P d s =
     (case start s of
        None \<Rightarrow> Some (Inl TypeError)
      | Some a \<Rightarrow>
          (case p_climb P d a [Blockquote, Bulleted, Numbered] of
             None \<Rightarrow> Some (Inr (d, s))
           | Some indent \<Rightarrow>
               (case containers (p_unindent P indent) d s of
                  None \<Rightarrow> None
                | Some (Inl e) \<Rightarrow> Some (Inl e)
                | Some (Inr d1) \<Rightarrow> Some (Inr (d1, mark s True)))))"

definition indent :: "prims \<Rightarrow> doc \<Rightarrow> selection \<Rightarrow> (error + doc \<times> selection) option" where
  "indent P d s =
     (if \<not> valid s then Some (Inr (d, s))
      else
        (case start s of
           None \<Rightarrow> Some (Inl TypeError)
         | Some a \<Rightarrow>
             (case p_climb P d a [Bulleted, Numbered] of
                None \<Rightarrow> Some (Inr (d, s))
              | Some list \<Rightarrow>
                  (case containers (p_indent P list) d s of
                     None \<Rightarrow> None
                   | Some (Inl e) \<Rightarrow> Some (Inl e)
                   | Some (Inr d1) \<Rightarrow> Some (Inr (d1, mark s True))))))"

definition break_sel :: "prims \<Rightarrow> doc \<Rightarrow> selection \<Rightarrow> bool \<Rightarrow> error + doc \<times> selection" where
  "break_sel P d s newline =
     (if \<not> valid s then Inr (d, s)
      else
        (let (d1, s1) = (if \<not> collapsed s then delete P d s else (d, s)) in
         case start s1 of
           None \<Rightarrow> Inl TypeError
         | Some a \<Rightarrow>
             if newline \<or> (t_type (texts d1 a) = Link \<and> startOfs s1 < length_text d1 a) then
               (let d2 = insert_text d1 a [CHR 0x0A] (startOfs s1) in Inr (d2, move d2 s1 1 None))
             else
               (let d2 = (if first_text d1 a \<and> startOfs s1 = 0
                          then fst (createTextPrev d1 a [] (t_style (texts d1 a))) else d1);
                    d3 = (if last_text d2 a \<and> startOfs s1 = length_text d2 a
                          then fst (createTextNext d2 a [] (t_style (texts d2 a))) else d2);
                    s3 = (if startOfs s1 = length_text d3 a
                          then setCursor d3 s1 (nextText d3 a False) 0 else s1) in
                case start s3 of
                  None \<Rightarrow> Inl TypeError
                | Some b \<Rightarrow>
                    (let (d4, tl) = p_split P d3 b (startOfs s3) None;
                         (d5, node) = p_break P d4 tl
                     in Inr (d5, setCursor d5 s3 (Some node) 0)))))"

definition format ::
  "prims \<Rightarrow> doc \<Rightarrow> selection \<Rightarrow> string list \<Rightarrow> bool \<Rightarrow> (error + doc \<times> selection) option" where
  "format P d s style remove =
     (if \<not> valid s then Some (Inr (d, s))
      else
        (let s1 = (if collapsed s then wordWrap d s else s);
             (d2, s2) = split P d (trim d s1) in
         case nodes (if remove then p_unformat P style else p_format P style) d2 s2 of
           None \<Rightarrow> None
         | Some d3 \<Rightarrow> defrag d3 s2))"

definition toggleList ::
  "prims \<Rightarrow> doc \<Rightarrow> selection \<Rightarrow> wmNodeType \<Rightarrow> (error + doc \<times> selection) option" where
  "toggleList P d s type =
     (if \<not> valid s then Some (Inr (d, s))
      else
        (case start s of
           None \<Rightarrow> Some (Inl TypeError)
         | Some a \<Rightarrow>
             (let list = p_climb P d a [Bulleted, Numbered];
                  apply_type = (\<lambda>d0.
                    case containers
                           (\<lambda>item dd. if c_type (conts dd item) \<noteq> Cell
                                       then p_indent P type item dd else dd) d0 s of
                      None \<Rightarrow> None
                    | Some (Inl e) \<Rightarrow> Some (Inl e)
                    | Some (Inr d2) \<Rightarrow> Some (Inr (d2, mark s True))) in
              case list of
                None \<Rightarrow> apply_type d
              | Some t \<Rightarrow>
                  (case containers (p_unindent P t) d s of
                     None \<Rightarrow> None
                   | Some (Inl e) \<Rightarrow> Some (Inl e)
                   | Some (Inr d1) \<Rightarrow>
                       if t = type then Some (Inr (d1, mark s True)) else apply_type d1))))"

partial_function (option) toggleQuote_loop ::
  "prims \<Rightarrow> tid \<Rightarrow> nat option \<Rightarrow> doc \<Rightarrow> doc option" where
  "toggleQuote_loop P e node d =
     (case node of
        None \<Rightarrow> Some d
      | Some k \<Rightarrow>
          if p_compare_block P d k e < 0 then
            toggleQuote_loop P e
              (p_nextSibling P (fst (p_indent_block P d k Blockquote))
                 (snd (p_indent_block P d k Blockquote)))
              (fst (p_indent_block P d k Blockquote))
          else Some d)"

declare toggleQuote_loop.simps [code]

definition toggleQuote :: "prims \<Rightarrow> doc \<Rightarrow> selection \<Rightarrow> (error + doc \<times> selection) option" where
  "toggleQuote P d s =
     (case (start s, end_node s) of
        (Some a, Some b) \<Rightarrow>
          (case p_climb P d a [Blockquote] of
             Some block \<Rightarrow>
               (case containers (p_unindent P Blockquote) d s of
                  None \<Rightarrow> None
                | Some (Inl e) \<Rightarrow> Some (Inl e)
                | Some (Inr d1) \<Rightarrow> Some (Inr (d1, mark s True)))
           | None \<Rightarrow>
               (case toggleQuote_loop P b (p_ancestor P d a 1) d of
                  None \<Rightarrow> None
                | Some d1 \<Rightarrow> Some (Inr (d1, mark s True))))
      | _ \<Rightarrow> Some (Inr (d, s)))"

text \<open>
  \<open>copy\<close> returns a detached tree fragment, or null on an invalid selection; the
  selection it leaves is word-wrapped and trimmed.
\<close>

definition copy :: "prims \<Rightarrow> doc \<Rightarrow> selection \<Rightarrow> error + doc option \<times> selection" where
  "copy P d s =
     (if \<not> valid s then Inr (None, s)
      else
        (let s1 = (if collapsed s then wordWrap d s else s);
             s2 = trim d s1 in
         case (start s2, end_node s2) of
           (Some a, Some b) \<Rightarrow>
             (let fragment = p_fragment P d a b in
              if whole d s2 then Inr (Some fragment, s2)
              else
                (let st = p_firstDescendant P fragment in
                 if single s2 then
                   Inr (Some (p_cut P fragment st (startOfs s2) (Some (endOfs s2))), s2)
                 else
                   (let en = p_lastDescendant P fragment
                    in Inr (Some (p_cut P (p_cut P fragment st (startOfs s2) None) en 0
                                   (Some (endOfs s2))), s2))))
         | _ \<Rightarrow> Inl TypeError))"

section \<open>Sample trees and selections\<close>

definition leaf :: "string \<Rightarrow> wmNodeType \<Rightarrow> cid \<Rightarrow> text_node" where
  "leaf v ty c =
     \<lparr>t_value = v, t_type = ty, t_style = [], t_url = None, t_container = c, t_removed = False\<rparr>"

definition box :: "tid list \<Rightarrow> content_node" where
  "box xs = \<lparr>c_content = xs, c_type = Item, c_removed = False\<rparr>"

definition range_sel :: "tid \<Rightarrow> int \<Rightarrow> tid \<Rightarrow> int \<Rightarrow> selection" where
  "range_sel a ao b bo =
     \<lparr>start = Some a, startOfs = ao, end_node = Some b, endOfs = bo, modified = False, stack = []\<rparr>"

definition cursor :: "tid \<Rightarrow> int \<Rightarrow> selection" where
  "cursor n ofs = range_sel n ofs n ofs"

definition empty_selection :: selection where
  "empty_selection =
     \<lparr>start = None, startOfs = 0, end_node = None, endOfs = 0, modified = False, stack = []\<rparr>"

text \<open>Two containers in a row, one leaf each: \<open>ab\<close> and \<open>cde\<close>.\<close>

definition doc_two_items :: doc where
  "doc_two_items =
     \<lparr>texts = (\<lambda>_. leaf [] Text 0)(0 := leaf ''ab'' Text 0, 1 := leaf ''cde'' Text 1),
      conts = (\<lambda>_. box [])(0 := box [0], 1 := box [1]),
      flow = [0, 1], fresh = 2\<rparr>"

text \<open>One container with the text \<open>abc\<close> followed by the link \<open>defg\<close>.\<close>

definition doc_one_item :: doc where
  "doc_one_item =
     \<lparr>texts = (\<lambda>_. leaf [] Text 0)(0 := leaf ''abc'' Text 0, 1 := leaf ''defg'' Link 0),
      conts = (\<lambda>_. box [])(0 := box [0, 1]),
      flow = [0], fresh = 2\<rparr>"




text \<open>One container with two links to different targets side by side.\<close>

definition doc_two_links :: doc where
  "doc_two_links =
     \<lparr>texts = (\<lambda>_. leaf [] Text 0)
        (0 := (leaf ''ab'' Link 0)\<lparr>t_url := Some ''u''\<rparr>,
         1 := (leaf ''cd'' Link 0)\<lparr>t_url := Some ''v''\<rparr>),
      conts = (\<lambda>_. box [])(0 := box [0, 1]),
      flow = [0], fresh = 2\<rparr>"

text \<open>
  Two containers: the first with the plain texts \<open>ab\<close> and \<open>cd\<close> in the same style, the
  second with \<open>ef\<close>.
\<close>

definition doc_fragmented :: doc where
  "doc_fragmented =
     \<lparr>texts = (\<lambda>_. leaf [] Text 0)
        (0 := leaf ''ab'' Text 0, 1 := leaf ''cd'' Text 0, 2 := leaf ''ef'' Text 1),
      conts = (\<lambda>_. box [])(0 := box [0, 1], 1 := box [2]),
      flow = [0, 1], fresh = 3\<rparr>"

text \<open>Tree primitives that leave the tree as it is.\<close>

definition plain_prims :: prims where
  "plain_prims =
     \<lparr>p_extract = (\<lambda>d n a b. d), p_cut = (\<lambda>d n a b. d), p_merge = (\<lambda>d a b. d),
      p_split = (\<lambda>d n a b. (d, n)), p_join = (\<lambda>d a b. d), p_climb = (\<lambda>d n ts. None),
      p_indent = (\<lambda>t c d. d), p_unindent = (\<lambda>t c d. d),
      p_fragment = (\<lambda>d a b. d), p_firstDescendant = (\<lambda>d. 0), p_lastDescendant = (\<lambda>d. 0),
      p_break = (\<lambda>d n. (d, n)), p_format = (\<lambda>st n d. d), p_unformat = (\<lambda>st n d. d),
      p_ancestor = (\<lambda>d n k. None), p_compare_block = (\<lambda>d k n. 0),
      p_indent_block = (\<lambda>d k t. (d, k)), p_nextSibling = (\<lambda>d k. None)\<rparr>"

section \<open>Properties\<close>

text \<open>
  A leaf is anchored in a tree when it is not flagged removed and its container lists it;
  it is attached when, in addition, its container is not flagged removed.
\<close>

definition anchored :: "doc \<Rightarrow> tid \<Rightarrow> bool" where
  "anchored d n = (\<not> t_removed (texts d n) \<and> n \<in> set (siblings_of d n))"

definition attached :: "doc \<Rightarrow> tid \<Rightarrow> bool" where
  "attached d n = (anchored d n \<and> \<not> c_removed (conts d (t_container (texts d n))))"

definition first_child :: "doc \<Rightarrow> tid \<Rightarrow> bool" where
  "first_child d n = (case siblings_of d n of [] \<Rightarrow> False | c # _ \<Rightarrow> c = n)"

text \<open>
  An offset in a leaf is off the seam when it is within the leaf and either positive, or
  zero in the first leaf of the container: the point is not also the end of the leaf before.
\<close>

definition off_seam :: "doc \<Rightarrow> tid \<Rightarrow> int \<Rightarrow> bool" where
  "off_seam d n ofs = (ofs \<le> length_text d n \<and> (0 < ofs \<or> (ofs = 0 \<and> first_child d n)))"

text \<open>
  A tree is well formed when no container occurs twice in the flow, no leaf twice in a
  container, and every leaf a container lists points back to it and is not flagged removed.
\<close>

definition wf_doc :: "doc \<Rightarrow> bool" where
  "wf_doc d =
     (distinct (flow d) \<and>
      (\<forall>c \<in> set (flow d).
         distinct (c_content (conts d c)) \<and>
         (\<forall>n \<in> set (c_content (conts d c)).
            t_container (texts d n) = c \<and> \<not> t_removed (texts d n))))"

text \<open>The place in the flow of the container of a leaf.\<close>

definition cidx :: "doc \<Rightarrow> tid \<Rightarrow> nat" where
  "cidx d n = index_of (flow d) (t_container (texts d n))"

text \<open>The leaves of a run of containers.\<close>

definition leaves_of :: "doc \<Rightarrow> cid list \<Rightarrow> tid list" where
  "leaves_of d cs = concat (map (\<lambda>c. c_content (conts d c)) cs)"

text \<open>A container is compact when no two adjacent leaves of it share their attributes.\<close>

fun compact_list :: "doc \<Rightarrow> tid list \<Rightarrow> bool" where
  "compact_list d [] = True"
| "compact_list d [a] = True"
| "compact_list d (a # b # rest) = (\<not> same_attributes d a b \<and> compact_list d (b # rest))"

definition compact :: "doc \<Rightarrow> cid \<Rightarrow> bool" where
  "compact d c = compact_list d (c_content (conts d c))"

text \<open>
  Two trees have the same frame when they agree on the flow and on the container, type,
  style and target of every leaf.
\<close>

definition same_frame :: "doc \<Rightarrow> doc \<Rightarrow> bool" where
  "same_frame d d' =
     (flow d' = flow d \<and> fresh d' = fresh d \<and>
      (\<forall>n. t_container (texts d' n) = t_container (texts d n) \<and>
           t_type (texts d' n) = t_type (texts d n) \<and>
           t_style (texts d' n) = t_style (texts d n) \<and>
           t_url (texts d' n) = t_url (texts d n)))"

text \<open>
  What defragmenting containers keeps of a tree: the frame, well-formedness, which
  containers are empty or flagged removed, and the containers that were compact.
\<close>

definition evolves :: "doc \<Rightarrow> doc \<Rightarrow> bool" where
  "evolves d d' =
     (same_frame d d' \<and> wf_doc d' \<and>
      (\<forall>c. (c_content (conts d' c) = []) = (c_content (conts d c) = [])) \<and>
      (\<forall>c. c_removed (conts d' c) = c_removed (conts d c)) \<and>
      (\<forall>c. compact d c \<longrightarrow> compact d' c))"

text \<open>
  The endpoints of a selection, when both are set, are leaves of the tree whose containers
  lie between two places of the flow.
\<close>

definition spans :: "doc \<Rightarrow> nat \<Rightarrow> nat \<Rightarrow> selection \<Rightarrow> bool" where
  "spans d lo hi s =
     (case (start s, end_node s) of
        (Some a, Some b) \<Rightarrow>
          a \<in> set (leaf_order d) \<and> b \<in> set (leaf_order d) \<and> lo \<le> cidx d a \<and> cidx d b \<le> hi
      | _ \<Rightarrow> True)"

text \<open>The contents of the leaves of a tree, in document order.\<close>

definition leaf_values :: "doc \<Rightarrow> string list" where
  "leaf_values d = map (\<lambda>n. t_value (texts d n)) (leaf_order d)"






subsection \<open>Operations on an invalid selection\<close>

lemma insert_invalid: "\<not> valid s \<Longrightarrow> insert_sel P d s char = Inr (d, s)"
  by (simp add: insert_sel_def)

lemma delete_invalid: "\<not> valid s \<Longrightarrow> delete P d s = (d, s)"
  by (auto simp: delete_def valid_def split: option.splits)

lemma split_invalid: "\<not> valid s \<Longrightarrow> split P d s = (d, s)"
  by (auto simp: split_def valid_def split: option.splits)

lemma defrag_invalid: "\<not> valid s \<Longrightarrow> defrag d s = Some (Inr (d, s))"
  by (simp add: defrag_def)

lemma unlink_invalid: "\<not> valid s \<Longrightarrow> unlink d s = Some (Inr (d, s))"
  by (simp add: unlink_def)

lemma link_invalid: "\<not> valid s \<Longrightarrow> link P d s url = Some (Inr (d, s))"
  by (simp add: link_def unlink_def)

lemma indent_invalid: "\<not> valid s \<Longrightarrow> indent P d s = Some (Inr (d, s))"
  by (simp add: indent_def)

lemma break_invalid: "\<not> valid s \<Longrightarrow> break_sel P d s newline = Inr (d, s)"
  by (simp add: break_sel_def)

lemma format_invalid: "\<not> valid s \<Longrightarrow> format P d s style remove = Some (Inr (d, s))"
  by (simp add: format_def)

lemma toggleList_invalid: "\<not> valid s \<Longrightarrow> toggleList P d s type = Some (Inr (d, s))"
  by (simp add: toggleList_def)

lemma toggleQuote_invalid: "\<not> valid s \<Longrightarrow> toggleQuote P d s = Some (Inr (d, s))"
  by (auto simp: toggleQuote_def valid_def split: option.splits)

text \<open>
  Claim C1: every mutating operation called while \<open>valid\<close> is false is a no-op that returns
  the selection unchanged and never raises.  Ten of the eleven operations the claim names
  are, by their first statement, as the lemmas above show.  \<open>unindent\<close> has no such
  statement: it starts with \<open>this.start.climb(...)\<close>,
  and on a selection without a start node that call raises a \<open>TypeError\<close>.
\<close>

theorem unindent_invalid_raises: "unindent P d (s\<lparr>start := None\<rparr>) = Some (Inl TypeError)"
  by (simp add: unindent_def)

text \<open>
  With a start node but no end node, and an enclosing list or quote, it returns, and clears
  the modified flag.
\<close>

lemma unindent_without_end:
  assumes "start s = Some a" and "end_node s = None"
    and "p_climb P d a [Blockquote, Bulleted, Numbered] = Some t"
  shows "unindent P d s = Some (Inr (d, s\<lparr>modified := False\<rparr>))"
  using assms by (simp add: unindent_def containers_def mark_def valid_def)

subsection \<open>Moving across a container boundary\<close>

text \<open>
  Claim C2, as it holds: for a leaf \<open>b\<close> that follows the leaf \<open>a\<close> in document order and lies
  in another container, \<open>move(+1)\<close> on a collapsed cursor at the end of \<open>a\<close> yields the
  cursor \<open>(b, 0)\<close>: the one unit is spent on the boundary between the containers.
\<close>

theorem move_across_containers:
  assumes "start s = Some a" and "end_node s = Some a"
    and "startOfs s = length_text d a" and "endOfs s = length_text d a"
    and "nextText d a True = Some b" and "\<not> siblings d b a"
  shows "move d s 1 None =
           s\<lparr>start := Some b, startOfs := 0, end_node := Some b, endOfs := 0, modified := True\<rparr>"
proof -
  have len: "0 \<le> length_text d b" by (simp add: length_text_def)
  have bk: "movePoint_back d a (length_text d a + 1) = (a, length_text d a + 1)"
    by (simp add: movePoint_back.simps [of d a] length_text_def)
  have forth_b: "movePoint_forth d b 0 = (b, 0)"
    using len by (simp add: movePoint_forth.simps [of d b])
  have forth: "movePoint_forth d a (length_text d a + 1) = (b, 0)"
    using assms(5,6) forth_b by (simp add: movePoint_forth.simps [of d a])
  have "movePoint d (Some a) (length_text d a) 1 = (Some b, 0)"
    by (simp add: movePoint_def bk forth)
  then show ?thesis
    using assms(1-4) by (simp add: move_def set_sel_def setStart_def setEnd_def)
qed

theorem move_across_containers_witness:
  "start (cursor 0 2) = Some 0 \<and> end_node (cursor 0 2) = Some 0 \<and>
   startOfs (cursor 0 2) = length_text doc_two_items 0 \<and>
   nextText doc_two_items 0 True = Some 1 \<and> \<not> siblings doc_two_items 1 0 \<and>
   move doc_two_items (cursor 0 2) 1 None =
     (cursor 0 2)\<lparr>start := Some 1, startOfs := 0, end_node := Some 1, endOfs := 0, modified := True\<rparr>"
proof -
  have h1: "start (cursor 0 2) = Some 0" and h2: "end_node (cursor 0 2) = Some 0"
    by (simp_all add: cursor_def range_sel_def)
  have h3: "startOfs (cursor 0 2) = length_text doc_two_items 0"
    and h4: "endOfs (cursor 0 2) = length_text doc_two_items 0"
    by (simp_all add: cursor_def range_sel_def length_text_def doc_two_items_def leaf_def)
  have h5: "nextText doc_two_items 0 True = Some 1"
    by (simp add: nextText_def leaf_order_def doc_two_items_def box_def)
  have h6: "\<not> siblings doc_two_items 1 0"
    by (simp add: siblings_def doc_two_items_def leaf_def)
  from move_across_containers [OF h1 h2 h3 h4 h5 h6] h1 h2 h3 h5 h6 show ?thesis
    by simp
qed

text \<open>The claim as stated, with \<open>(b, 1)\<close> for the result, fails on two containers in a row.\<close>

theorem move_across_containers_counterexample:
  "nextText doc_two_items 0 True = Some 1 \<and> \<not> siblings doc_two_items 1 0 \<and>
   start (move doc_two_items (cursor 0 (length_text doc_two_items 0)) 1 None) = Some 1 \<and>
   startOfs (move doc_two_items (cursor 0 (length_text doc_two_items 0)) 1 None) = 0 \<and>
   startOfs (move doc_two_items (cursor 0 (length_text doc_two_items 0)) 1 None) \<noteq> 1"
  by (simp add: move_def movePoint_def movePoint_back.simps movePoint_forth.simps
      nextText_def siblings_def leaf_order_def length_text_def set_sel_def setStart_def
      setEnd_def cursor_def range_sel_def doc_two_items_def leaf_def box_def)

subsection \<open>An exception while reading the host range\<close>

text \<open>
  Claim C3, as it holds: an exception raised in the \<open>try\<close> block of \<open>query\<close> is swallowed,
  and \<open>query\<close> returns the selection with the modified flag cleared; the selection is not
  reset.  When getting the range raises, or reading and mapping the start boundary of the
  range, the selection keeps the endpoints it had.  When reading and mapping the end
  boundary of a range that is not collapsed raises, the start point is the mapped start
  boundary already, and the end point is the one it had.  No other exception is raised
  in the block.
\<close>

theorem query_raises_keeps_endpoints:
  "query d (Some Raises) s = (ReturnsThis, s\<lparr>modified := False\<rparr>) \<and>
   (fromDom d sc so = Inl e \<longrightarrow>
      query d (Some (Range coll sc so ec eo)) s = (ReturnsThis, s\<lparr>modified := False\<rparr>)) \<and>
   (fromDom d sc' so' = Inr p \<and> fromDom d ec' eo' = Inl e' \<longrightarrow>
      query d (Some (Range False sc' so' ec' eo')) s =
        (ReturnsThis, (setStart d s (fst p) (snd p))\<lparr>modified := False\<rparr>)) \<and>
   (fst (query_try d h s) \<noteq> None \<longleftrightarrow>
      h = Raises \<or>
      (\<exists>c x xo y yo. h = Range c x xo y yo \<and>
         (isl (fromDom d x xo) \<or> (\<not> c \<and> isl (fromDom d y yo)))))"
proof -
  have a: "query d (Some Raises) s = (ReturnsThis, s\<lparr>modified := False\<rparr>)"
    by (simp add: query_def query_try_def mark_def)
  have b: "query d (Some (Range coll sc so ec eo)) s = (ReturnsThis, s\<lparr>modified := False\<rparr>)"
    if "fromDom d sc so = Inl e"
    using that by (simp add: query_def query_try_def mark_def)
  have c: "query d (Some (Range False sc' so' ec' eo')) s =
        (ReturnsThis, (setStart d s (fst p) (snd p))\<lparr>modified := False\<rparr>)"
    if "fromDom d sc' so' = Inr p" "fromDom d ec' eo' = Inl e'"
    using that by (simp add: query_def query_try_def mark_def Let_def)
  have d: "fst (query_try d h s) \<noteq> None \<longleftrightarrow>
      h = Raises \<or>
      (\<exists>c x xo y yo. h = Range c x xo y yo \<and>
         (isl (fromDom d x xo) \<or> (\<not> c \<and> isl (fromDom d y yo))))"
    by (cases h) (auto simp: query_try_def Let_def split: sum.splits)
  from a b c d show ?thesis by blast
qed

text \<open>
  A cursor in the first leaf, on the text \<open>abc\<close> followed by the link \<open>defg\<close>.  A collapsed
  range whose boundary cannot be read leaves the cursor; a range from offset 2 of the link
  to a boundary that cannot be read leaves the selection from there to the old cursor.
\<close>

theorem query_raises_keeps_endpoints_witness:
  "fromDom doc_one_item (Some DomFails) 0 = Inl HostError \<and>
   fromDom doc_one_item (Some (DomText (Some 1) 4)) 2 = Inr (Some 1, 2) \<and>
   query doc_one_item (Some (Range True (Some DomFails) 0 None 0))
     ((cursor 0 1)\<lparr>modified := True\<rparr>) = (ReturnsThis, cursor 0 1) \<and>
   query doc_one_item (Some (Range False (Some (DomText (Some 1) 4)) 2 (Some DomFails) 0))
     ((cursor 0 1)\<lparr>modified := True\<rparr>) = (ReturnsThis, range_sel 1 2 0 1) \<and>
   fst (query_try doc_one_item (Range False (Some (DomText (Some 1) 4)) 2 (Some DomFails) 0)
     ((cursor 0 1)\<lparr>modified := True\<rparr>)) \<noteq> None"
proof -
  have h1: "fromDom doc_one_item (Some DomFails) 0 = Inl HostError"
    by (simp add: fromDom_def)
  have lo: "leaf_order doc_one_item = [0, 1]"
    by (simp add: leaf_order_def doc_one_item_def box_def)
  have wt: "walkTree doc_one_item (Some 1) = Some 1"
    by (simp add: walkTree_def lo)
  have lf: "t_type (texts doc_one_item 1) = Link" "\<not> empty_text doc_one_item 1"
    by (simp_all add: empty_text_def doc_one_item_def leaf_def)
  have h2: "fromDom doc_one_item (Some (DomText (Some 1) 4)) 2 = Inr (Some 1, 2)"
    using wt lf by (simp add: fromDom_def)
  have st: "(setStart doc_one_item ((cursor 0 1)\<lparr>modified := True\<rparr>) (Some 1) 2)\<lparr>modified := False\<rparr> =
      range_sel 1 2 0 1"
    by (simp add: setStart_def cursor_def range_sel_def)
  note inst = query_raises_keeps_endpoints [of doc_one_item "(cursor 0 1)\<lparr>modified := True\<rparr>"
      "Some DomFails" 0 HostError True None 0 "Some (DomText (Some 1) 4)" 2 "(Some 1, 2)"
      "Some DomFails" 0 HostError
      "Range False (Some (DomText (Some 1) 4)) 2 (Some DomFails) 0"]
  from inst h1 have q1: "query doc_one_item (Some (Range True (Some DomFails) 0 None 0))
     ((cursor 0 1)\<lparr>modified := True\<rparr>) = (ReturnsThis, cursor 0 1)"
    by (simp add: cursor_def range_sel_def)
  from inst h1 h2 st have q2: "query doc_one_item
     (Some (Range False (Some (DomText (Some 1) 4)) 2 (Some DomFails) 0))
     ((cursor 0 1)\<lparr>modified := True\<rparr>) = (ReturnsThis, range_sel 1 2 0 1)"
    by simp
  have "\<exists>c x xo y yo.
      Range False (Some (DomText (Some 1) 4)) 2 (Some DomFails) 0 = Range c x xo y yo \<and>
      (isl (fromDom doc_one_item x xo) \<or> (\<not> c \<and> isl (fromDom doc_one_item y yo)))"
    by (auto simp: h1)
  with inst have q3: "fst (query_try doc_one_item
     (Range False (Some (DomText (Some 1) 4)) 2 (Some DomFails) 0)
     ((cursor 0 1)\<lparr>modified := True\<rparr>)) \<noteq> None"
    by blast
  from h1 h2 q1 q2 q3 show ?thesis by blast
qed

text \<open>
  The claim as stated has the selection reset to an empty cursor; a cursor in the first
  leaf is still there after the exception.
\<close>

theorem query_raises_counterexample:
  "query doc_one_item (Some Raises) ((cursor 0 1)\<lparr>modified := True\<rparr>) = (ReturnsThis, cursor 0 1) \<and>
   start (cursor 0 1) = Some 0 \<and> valid (cursor 0 1)"
  by (simp add: query_def query_try_def mark_def valid_def cursor_def range_sel_def)

subsection \<open>Saving and restoring a selection\<close>

lemma sum_lengths_nonneg: "0 \<le> sum_list (map (length_text d) xs)"
  by (induction xs) (simp_all add: length_text_def)

lemma absPoint_loop_found:
  "a \<notin> set pre \<Longrightarrow>
     absPoint_loop d a (pre @ a # post) ofs =
       (Some (t_container (texts d a)), ofs + sum_list (map (length_text d) pre))"
  by (induction pre arbitrary: ofs) auto

lemma relPoint_loop_found:
  "ofs \<le> length_text d a \<Longrightarrow> pre = [] \<or> 0 < ofs \<Longrightarrow>
     relPoint_loop d (pre @ a # post) (ofs + sum_list (map (length_text d) pre)) = (Some a, ofs)"
proof (induction pre)
  case Nil
  then show ?case by simp
next
  case (Cons c pre)
  have "0 \<le> sum_list (map (length_text d) pre)" by (rule sum_lengths_nonneg)
  with Cons.prems have "\<not> ofs + sum_list (map (length_text d) (c # pre)) \<le> length_text d c"
    by simp
  moreover have "ofs + sum_list (map (length_text d) (c # pre)) - length_text d c =
      ofs + sum_list (map (length_text d) pre)" by simp
  ultimately show ?case using Cons by auto
qed

lemma abs_rel_point:
  assumes "anchored d a" and "off_seam d a ofs"
  shows "\<exists>p. absPoint d (Some a) ofs = (Some (t_container (texts d a)), p) \<and>
             relPoint d (Some (t_container (texts d a))) p = (Some a, ofs)"
proof -
  from assms(1) have "a \<in> set (siblings_of d a)" and nr: "\<not> t_removed (texts d a)"
    by (simp_all add: anchored_def)
  then obtain pre post where sp: "siblings_of d a = pre @ a # post" and np: "a \<notin> set pre"
    by (auto dest: split_list_first)
  have ab: "absPoint d (Some a) ofs =
      (Some (t_container (texts d a)), ofs + sum_list (map (length_text d) pre))"
    using nr sp np by (simp add: absPoint_def absPoint_loop_found)
  have "pre = [] \<or> 0 < ofs"
    using assms(2) sp np by (cases pre) (auto simp: off_seam_def first_child_def)
  moreover have "ofs \<le> length_text d a" using assms(2) by (simp add: off_seam_def)
  ultimately have
    "relPoint_loop d (pre @ a # post) (ofs + sum_list (map (length_text d) pre)) = (Some a, ofs)"
    by (rule relPoint_loop_found [rotated])
  then have "relPoint d (Some (t_container (texts d a)))
      (ofs + sum_list (map (length_text d) pre)) = (Some a, ofs)"
    using sp by (simp add: relPoint_def siblings_of_def)
  with ab show ?thesis by blast
qed

lemma absPoint_anchored:
  assumes "anchored d a"
  shows "fst (absPoint d (Some a) ofs) = Some (t_container (texts d a))"
proof -
  from assms have "a \<in> set (siblings_of d a)" and nr: "\<not> t_removed (texts d a)"
    by (simp_all add: anchored_def)
  then obtain pre post where "siblings_of d a = pre @ a # post" and "a \<notin> set pre"
    by (auto dest: split_list_first)
  with nr show ?thesis by (simp add: absPoint_def absPoint_loop_found)
qed

text \<open>
  Claim C4, as it holds: for a valid selection whose endpoints reference attached leaves,
  each at an offset off the seam (within the leaf, and positive unless the leaf is the first
  of its container), \<open>save()\<close> followed by \<open>restore()\<close> on the same tree reproduces the start
  leaf, start offset, end leaf and end offset; the stack is as before and the selection is
  flagged modified.
\<close>

theorem save_restore_roundtrip:
  assumes "start s = Some a" and "end_node s = Some b"
    and "attached d a" and "attached d b"
    and "off_seam d a (startOfs s)" and "off_seam d b (endOfs s)"
  shows "restore d (save d s) = Inr (s\<lparr>modified := True\<rparr>)"
proof -
  have aa: "anchored d a" and ab: "anchored d b"
    and ca: "\<not> c_removed (conts d (t_container (texts d a)))"
    and cb: "\<not> c_removed (conts d (t_container (texts d b)))"
    using assms(3,4) by (simp_all add: attached_def)
  from abs_rel_point [OF aa assms(5)] obtain p where
    A: "absPoint d (Some a) (startOfs s) = (Some (t_container (texts d a)), p)"
       "relPoint d (Some (t_container (texts d a))) p = (Some a, startOfs s)" by blast
  from abs_rel_point [OF ab assms(6)] obtain q where
    B: "absPoint d (Some b) (endOfs s) = (Some (t_container (texts d b)), q)"
       "relPoint d (Some (t_container (texts d b))) q = (Some b, endOfs s)" by blast
  have nn: "0 \<le> startOfs s" "0 \<le> endOfs s"
    using assms(5,6) by (auto simp: off_seam_def)
  show ?thesis
  proof (cases "collapsed s")
    case True
    then have eq: "b = a" "endOfs s = startOfs s"
      using assms(1,2) by (auto simp: collapsed_def single_def)
    show ?thesis
      using True assms(1,2) nn eq ca A
      by (simp add: save_def restore_def Let_def setCursor_def set_sel_def
          setStart_def setEnd_def)
  next
    case False
    show ?thesis
      using False assms(1,2) nn ca cb A B
      by (simp add: save_def restore_def Let_def set_sel_def
          setStart_def setEnd_def)
  qed
qed

theorem save_restore_roundtrip_witness:
  "start (cursor 1 2) = Some 1 \<and> end_node (cursor 1 2) = Some 1 \<and>
   attached doc_one_item 1 \<and> off_seam doc_one_item 1 (startOfs (cursor 1 2)) \<and>
   restore doc_one_item (save doc_one_item (cursor 1 2)) = Inr ((cursor 1 2)\<lparr>modified := True\<rparr>)"
proof -
  have h1: "start (cursor 1 2) = Some 1" and h2: "end_node (cursor 1 2) = Some 1"
    by (simp_all add: cursor_def range_sel_def)
  have h3: "attached doc_one_item 1"
    by (simp add: attached_def anchored_def siblings_of_def doc_one_item_def leaf_def box_def)
  have h4: "off_seam doc_one_item 1 (startOfs (cursor 1 2))"
    and h5: "off_seam doc_one_item 1 (endOfs (cursor 1 2))"
    by (simp_all add: off_seam_def cursor_def range_sel_def length_text_def doc_one_item_def
        leaf_def)
  from save_restore_roundtrip [OF h1 h2 h3 h3 h4 h5] h1 h2 h3 h4 show ?thesis
    by simp
qed

text \<open>
  The claim as stated fails for a cursor at offset 0 of a leaf that is not the first of its
  container: the same absolute position is the end of the leaf before, and \<open>relPoint\<close>
  stops there.
\<close>

theorem save_restore_roundtrip_counterexample:
  "valid (cursor 1 0) \<and> attached doc_one_item 1 \<and>
   0 \<le> startOfs (cursor 1 0) \<and> startOfs (cursor 1 0) \<le> length_text doc_one_item 1 \<and>
   restore doc_one_item (save doc_one_item (cursor 1 0)) =
     Inr ((cursor 1 0)\<lparr>start := Some 0, startOfs := 3, end_node := Some 0, endOfs := 3,
            modified := True\<rparr>)"
  by (simp add: valid_def attached_def anchored_def siblings_of_def length_text_def
      save_def restore_def collapsed_def single_def absPoint_def relPoint_def Let_def
      setCursor_def set_sel_def setStart_def setEnd_def cursor_def range_sel_def
      doc_one_item_def leaf_def box_def)




subsection \<open>Sorting the endpoints\<close>

lemma compare_place_antisym: "compare_place p q > 0 \<Longrightarrow> compare_place q p \<le> 0"
  by (cases p; cases q) (auto simp: compare_place_def split: if_splits)

lemma compare_text_antisym: "compare_text d a b > 0 \<Longrightarrow> compare_text d b a \<le> 0"
  by (auto simp: compare_text_def dest: compare_place_antisym split: if_splits)

text \<open>
  Claim C6: after \<open>sort()\<close> on a valid selection the start leaf precedes or equals the end
  leaf in document order, and when both endpoints share a leaf the start offset is at most
  the end offset.
\<close>

theorem sort_orders_endpoints:
  assumes "start s = Some a" and "end_node s = Some b"
  shows "\<exists>a' b'. start (sort_sel d s) = Some a' \<and> end_node (sort_sel d s) = Some b' \<and>
           compare_text d a' b' \<le> 0 \<and>
           (a' = b' \<longrightarrow> startOfs (sort_sel d s) \<le> endOfs (sort_sel d s))"
proof (cases "reversed d s")
  case True
  then have "(a = b \<and> startOfs s > endOfs s) \<or> compare_text d a b > 0"
    using assms by (simp add: reversed_def)
  then have "compare_text d b a \<le> 0 \<and> (a = b \<longrightarrow> endOfs s \<le> startOfs s)"
    using compare_text_antisym [of d a b] by (auto simp: compare_text_def)
  with True assms show ?thesis by (simp add: sort_sel_def)
next
  case False
  then have "\<not> (a = b \<and> startOfs s > endOfs s)" and "\<not> compare_text d a b > 0"
    using assms by (simp_all add: reversed_def)
  with False assms show ?thesis by (auto simp: sort_sel_def)
qed

theorem sort_orders_endpoints_witness:
  "start (range_sel 1 2 0 1) = Some 1 \<and> end_node (range_sel 1 2 0 1) = Some 0 \<and>
   reversed doc_two_items (range_sel 1 2 0 1) \<and>
   sort_sel doc_two_items (range_sel 1 2 0 1) = range_sel 0 1 1 2 \<and>
   compare_text doc_two_items 0 1 \<le> 0"
proof -
  have h1: "start (range_sel 1 2 0 1) = Some 1" and h2: "end_node (range_sel 1 2 0 1) = Some 0"
    by (simp_all add: range_sel_def)
  have r: "reversed doc_two_items (range_sel 1 2 0 1)"
    by (simp add: reversed_def range_sel_def compare_text_def compare_place_def place_text_def
        siblings_of_def doc_two_items_def leaf_def box_def)
  then have e: "sort_sel doc_two_items (range_sel 1 2 0 1) = range_sel 0 1 1 2"
    by (simp add: sort_sel_def range_sel_def)
  from sort_orders_endpoints [OF h1 h2, of doc_two_items] h1 h2 r e show ?thesis
    by (simp add: range_sel_def)
qed

subsection \<open>Typing at the trailing edge of a link\<close>

lemma nextText_sibling_neq:
  assumes "nextText d l False = Some n"
  shows "n \<noteq> l"
proof
  assume "n = l"
  let ?xs = "remdups (siblings_of d l)"
  from assms have lt: "Suc (index_of ?xs l) < length ?xs" and n: "n = ?xs ! Suc (index_of ?xs l)"
    by (auto simp: nextText_def Let_def split: if_splits)
  have "index_of ?xs n = Suc (index_of ?xs l)"
    unfolding n using lt by (intro index_of_nth) simp_all
  with \<open>n = l\<close> show False by simp
qed

lemma move_after_insert:
  assumes "start s = Some n" and "startOfs s = 0"
  shows "move (insert_text d n char 0) s (int (length char)) None =
           s\<lparr>start := Some n, startOfs := int (length char), end_node := Some n,
             endOfs := int (length char), modified := True\<rparr>"
proof -
  let ?d = "insert_text d n char 0"
  have len: "int (length char) \<le> length_text ?d n"
    by (simp add: length_text_def insert_text_def)
  have bk: "movePoint_back ?d n (int (length char)) = (n, int (length char))"
    by (simp add: movePoint_back.simps [of ?d n])
  have forth: "movePoint_forth ?d n (int (length char)) = (n, int (length char))"
    using len by (simp add: movePoint_forth.simps [of ?d n])
  have "movePoint ?d (Some n) 0 (int (length char)) = (Some n, int (length char))"
    by (simp add: movePoint_def bk forth)
  then show ?thesis
    using assms by (simp add: move_def set_sel_def setStart_def setEnd_def)
qed

lemma insert_after_length: "length (insert_after l f xs) = Suc (length xs)"
  by (induction xs) auto

lemma insert_after_set: "set (insert_after l f xs) = insert f (set xs)"
  by (induction xs) auto

lemma insert_after_distinct: "distinct xs \<Longrightarrow> f \<notin> set xs \<Longrightarrow> distinct (insert_after l f xs)"
  by (induction xs) (auto simp: insert_after_set)

lemma insert_after_index:
  "l \<in> set xs \<Longrightarrow> f \<notin> set xs \<Longrightarrow> index_of (insert_after l f xs) l = index_of xs l"
  by (induction xs) auto

lemma insert_after_nth: "l \<in> set xs \<Longrightarrow> insert_after l f xs ! Suc (index_of xs l) = f"
  by (induction xs) auto

text \<open>The leaf \<open>createTextNext\<close> creates is the one that follows the receiver in its container.\<close>

lemma createTextNext_follows:
  assumes "l \<in> set (siblings_of d l)" and "distinct (siblings_of d l)"
    and "fresh d \<notin> set (siblings_of d l)"
  shows "nextText (insert_text (fst (createTextNext d l v st)) (fresh d) char ofs) l False =
           Some (fresh d)"
proof -
  let ?xs = "siblings_of d l"
  let ?dn = "insert_text (fst (createTextNext d l v st)) (fresh d) char ofs"
  have neq: "fresh d \<noteq> l" using assms(1,3) by auto
  have sib: "siblings_of ?dn l = insert_after l (fresh d) ?xs"
    using neq by (simp add: siblings_of_def insert_text_def createTextNext_def Let_def)
  have dist: "distinct (insert_after l (fresh d) ?xs)"
    using assms(2,3) by (rule insert_after_distinct)
  show ?thesis
    using assms(1,3) index_of_less [OF assms(1)]
    by (simp add: nextText_def sib distinct_remdups_id [OF dist] insert_after_index
        insert_after_nth insert_after_length)
qed

text \<open>
  Claim C7, as it holds: for a collapsed cursor at the trailing edge of a link leaf \<open>l\<close>,
  \<open>insert(char)\<close> puts the characters at offset 0 of the leaf that follows \<open>l\<close> in its
  container, or, when none follows, of a new empty plain-text leaf created right after \<open>l\<close>
  in the container of \<open>l\<close>, and not into \<open>l\<close>, which is left as it was; afterwards the
  cursor is in that leaf, at the length of the inserted text.  The leaf inserted into is
  the one that follows \<open>l\<close> in its container from then on (for a created leaf, when the
  container lists \<open>l\<close> and no leaf twice).
\<close>

theorem insert_after_link:
  assumes "start s = Some l" and "end_node s = Some l" and "endOfs s = startOfs s"
    and "t_type (texts d l) = Link" and "startOfs s = length_text d l" and "l < fresh d"
  shows "\<exists>d' n. insert_sel P d s char =
             Inr (d', s\<lparr>start := Some n, startOfs := int (length char), end_node := Some n,
                        endOfs := int (length char), modified := True\<rparr>) \<and>
           n \<noteq> l \<and> texts d' l = texts d l \<and>
           (case nextText d l False of
              Some m \<Rightarrow> n = m \<and> t_value (texts d' n) = char @ t_value (texts d n) \<and>
                nextText d' l False = Some n
            | None \<Rightarrow> n = fresh d \<and> t_value (texts d' n) = char \<and> t_type (texts d' n) = Text \<and>
                t_container (texts d' n) = t_container (texts d l) \<and>
                siblings_of d' l = insert_after l n (siblings_of d l) \<and>
                (l \<in> set (siblings_of d l) \<and> distinct (siblings_of d l) \<and>
                 n \<notin> set (siblings_of d l) \<longrightarrow> nextText d' l False = Some n))"
proof -
  have v: "valid s" and c: "collapsed s"
    using assms(1-3) by (simp_all add: valid_def collapsed_def single_def)
  show ?thesis
  proof (cases "nextText d l False")
    case None
    let ?f = "fresh d"
    obtain d1 where d1: "createTextNext d l [] [] = (d1, ?f)"
      by (simp add: createTextNext_def Let_def)
    let ?s2 = "setCursor d1 s (Some ?f) 0"
    let ?dn = "insert_text d1 ?f char 0"
    have s2: "start ?s2 = Some ?f" "startOfs ?s2 = 0"
      by (simp_all add: setCursor_def set_sel_def setStart_def setEnd_def)
    have ins: "insert_sel P d s char =
        Inr (?dn, move ?dn ?s2 (int (length char)) None)"
      using v c assms(1,4,5) None d1 s2 by (simp add: insert_sel_def Let_def)
    have neq: "?f \<noteq> l" using assms(6) by simp
    have t1: "texts d1 l = texts d l" "t_value (texts d1 ?f) = []" "t_type (texts d1 ?f) = Text"
      "t_container (texts d1 ?f) = t_container (texts d l)"
      using d1 neq by (auto simp: createTextNext_def Let_def)
    have sib: "siblings_of ?dn l = insert_after l ?f (siblings_of d l)"
      using d1 neq by (auto simp: siblings_of_def insert_text_def createTextNext_def Let_def)
    have nx: "nextText ?dn l False = Some ?f"
      if "l \<in> set (siblings_of d l)" "distinct (siblings_of d l)" "?f \<notin> set (siblings_of d l)"
      using createTextNext_follows [OF that, of "[]" "[]" char 0] d1 by simp
    have mv: "move ?dn ?s2 (int (length char)) None =
        s\<lparr>start := Some ?f, startOfs := int (length char), end_node := Some ?f,
          endOfs := int (length char), modified := True\<rparr>"
      using move_after_insert [OF s2, of d1 char]
      by (simp add: setCursor_def set_sel_def setStart_def setEnd_def)
    have tx: "texts ?dn l = texts d l" "t_value (texts ?dn ?f) = char"
      "t_type (texts ?dn ?f) = Text" "t_container (texts ?dn ?f) = t_container (texts d l)"
      using t1 neq by (simp_all add: insert_text_def)
    show ?thesis
      unfolding ins mv using None neq tx sib nx by simp
  next
    case (Some n)
    let ?s2 = "setCursor d s (Some n) 0"
    let ?dn = "insert_text d n char 0"
    have s2: "start ?s2 = Some n" "startOfs ?s2 = 0"
      by (simp_all add: setCursor_def set_sel_def setStart_def setEnd_def)
    have ins: "insert_sel P d s char =
        Inr (?dn, move ?dn ?s2 (int (length char)) None)"
      using v c assms(1,4,5) Some s2 by (simp add: insert_sel_def Let_def)
    have neq: "n \<noteq> l" using Some by (rule nextText_sibling_neq)
    have mv: "move ?dn ?s2 (int (length char)) None =
        s\<lparr>start := Some n, startOfs := int (length char), end_node := Some n,
          endOfs := int (length char), modified := True\<rparr>"
      using move_after_insert [OF s2, of d char]
      by (simp add: setCursor_def set_sel_def setStart_def setEnd_def)
    have nx: "nextText ?dn l False = Some n"
    proof -
      have "siblings_of ?dn l = siblings_of d l"
        using neq by (simp add: siblings_of_def insert_text_def)
      then show ?thesis using Some by (simp add: nextText_def)
    qed
    show ?thesis
      unfolding ins mv using Some neq nx by (simp add: insert_text_def)
  qed
qed

text \<open>
  A cursor at the end of the link \<open>defg\<close>, the last leaf of its container: the text \<open>xy\<close>
  goes into the new leaf 2, which follows the link, and the link keeps its value.
\<close>

theorem insert_after_link_witness:
  "start (cursor 1 4) = Some 1 \<and> t_type (texts doc_one_item 1) = Link \<and>
   startOfs (cursor 1 4) = length_text doc_one_item 1 \<and> nextText doc_one_item 1 False = None \<and>
   siblings_of doc_one_item 1 = [0, 1] \<and>
   (\<exists>d'. insert_sel plain_prims doc_one_item (cursor 1 4) ''xy'' =
            Inr (d', (cursor 2 2)\<lparr>modified := True\<rparr>) \<and>
          t_value (texts d' 1) = ''defg'' \<and> t_value (texts d' 2) = ''xy'' \<and>
          t_type (texts d' 2) = Text \<and> siblings_of d' 1 = [0, 1, 2] \<and>
          nextText d' 1 False = Some 2)"
proof -
  have h1: "start (cursor 1 4) = Some 1" and h2: "end_node (cursor 1 4) = Some 1"
    and h3: "endOfs (cursor 1 4) = startOfs (cursor 1 4)"
    by (simp_all add: cursor_def range_sel_def)
  have h4: "t_type (texts doc_one_item 1) = Link"
    by (simp add: doc_one_item_def leaf_def)
  have h5: "startOfs (cursor 1 4) = length_text doc_one_item 1"
    by (simp add: cursor_def range_sel_def length_text_def doc_one_item_def leaf_def)
  have h6: "1 < fresh doc_one_item"
    by (simp add: doc_one_item_def)
  have h7: "nextText doc_one_item 1 False = None"
    by (simp add: nextText_def siblings_of_def doc_one_item_def leaf_def box_def)
  have h8: "siblings_of doc_one_item 1 = [0, 1]"
    by (simp add: siblings_of_def doc_one_item_def leaf_def box_def)
  have v: "t_value (texts doc_one_item 1) = ''defg''" and f: "fresh doc_one_item = 2"
    by (simp_all add: doc_one_item_def leaf_def)
  from insert_after_link [OF h1 h2 h3 h4 h5 h6, of plain_prims "''xy''"] h7 h8 v f
  have "\<exists>d'. insert_sel plain_prims doc_one_item (cursor 1 4) ''xy'' =
            Inr (d', (cursor 2 2)\<lparr>modified := True\<rparr>) \<and>
          t_value (texts d' 1) = ''defg'' \<and> t_value (texts d' 2) = ''xy'' \<and>
          t_type (texts d' 2) = Text \<and> siblings_of d' 1 = [0, 1, 2] \<and>
          nextText d' 1 False = Some 2"
    by (auto simp: cursor_def range_sel_def)
  with h1 h4 h5 h7 h8 show ?thesis by blast
qed

text \<open>
  The claim as stated has the text go into a plain-text leaf and never extend a link.
  With a second link right after the first, the text typed at the end of the first becomes
  the head of the second.
\<close>

theorem insert_after_link_counterexample:
  "collapsed (cursor 0 2) \<and> t_type (texts doc_two_links 0) = Link \<and>
   startOfs (cursor 0 2) = length_text doc_two_links 0 \<and>
   insert_sel plain_prims doc_two_links (cursor 0 2) ''x'' =
     Inr (insert_text doc_two_links 1 ''x'' 0, (cursor 1 1)\<lparr>modified := True\<rparr>) \<and>
   t_type (texts (insert_text doc_two_links 1 ''x'' 0) 1) = Link \<and>
   t_value (texts (insert_text doc_two_links 1 ''x'' 0) 1) = ''xcd''"
  by (simp add: collapsed_def single_def valid_def cursor_def range_sel_def doc_two_links_def
      leaf_def box_def length_text_def insert_sel_def nextText_def siblings_of_def Let_def
      setCursor_def set_sel_def setStart_def setEnd_def insert_text_def move_def movePoint_def
      movePoint_back.simps movePoint_forth.simps)

subsection \<open>Querying without a host document\<close>

text \<open>
  Claim C10, as it holds: \<open>query(from)\<close> with a null or undefined host document returns
  null instead of the selection and leaves the selection, its endpoints and its modified
  flag, unchanged.
\<close>

theorem query_without_host: "query d None s = (ReturnsNull, s)"
  by (simp add: query_def)

text \<open>
  The claim as stated adds that no other public operation returns something else than the
  selection.  \<open>copy()\<close> is public and returns a tree fragment, and null on an invalid
  selection.
\<close>

theorem copy_invalid_counterexample:
  "\<not> valid empty_selection \<and>
   copy plain_prims doc_one_item empty_selection = Inr (None, empty_selection)"
  by (simp add: copy_def valid_def empty_selection_def)

subsection \<open>Defragmenting twice\<close>

lemma nodes_loop_done: "nodes_loop callbackfn e None d = Some d"
  by (subst nodes_loop.simps) simp

lemma containers_loop_done: "containers_loop callbackfn e None d = Some (Inr d)"
  by (subst containers_loop.simps) simp

lemma leaves_of_simps [simp]:
  "leaves_of d [] = []"
  "leaves_of d (c # cs) = c_content (conts d c) @ leaves_of d cs"
  "leaves_of d (cs @ cs') = leaves_of d cs @ leaves_of d cs'"
  by (simp_all add: leaves_of_def)

lemma leaves_of_owner:
  assumes "\<forall>c \<in> set cs. \<forall>n \<in> set (c_content (conts d c)). t_container (texts d n) = c"
    and "n \<in> set (leaves_of d cs)"
  shows "t_container (texts d n) \<in> set cs \<and> n \<in> set (c_content (conts d (t_container (texts d n))))"
  using assms by (auto simp: leaves_of_def)

lemma distinct_leaves_of:
  assumes "distinct cs"
    and "\<forall>c \<in> set cs. distinct (c_content (conts d c)) \<and>
           (\<forall>n \<in> set (c_content (conts d c)). t_container (texts d n) = c)"
  shows "distinct (leaves_of d cs)"
  using assms
proof (induction cs)
  case Nil
  then show ?case by simp
next
  case (Cons c cs)
  have "set (c_content (conts d c)) \<inter> set (leaves_of d cs) = {}"
  proof (rule ccontr)
    assume "\<not> ?thesis"
    then obtain n where n: "n \<in> set (c_content (conts d c))" "n \<in> set (leaves_of d cs)" by blast
    from Cons.prems(2) n(1) have "t_container (texts d n) = c" by simp
    moreover from leaves_of_owner [of cs d n] Cons.prems(2) n(2)
    have "t_container (texts d n) \<in> set cs" by simp
    ultimately show False using Cons.prems(1) by simp
  qed
  with Cons show ?case by simp
qed

lemma leaf_order_wf: "wf_doc d \<Longrightarrow> leaf_order d = leaves_of d (flow d)"
  unfolding leaf_order_def leaves_of_def [symmetric]
  by (rule distinct_remdups_id, rule distinct_leaves_of) (auto simp: wf_doc_def)

lemma in_leaf_order:
  assumes "wf_doc d" and "n \<in> set (leaf_order d)"
  shows "t_container (texts d n) \<in> set (flow d)"
    and "n \<in> set (siblings_of d n)" and "\<not> t_removed (texts d n)"
proof -
  from assms have "n \<in> set (leaves_of d (flow d))" by (simp add: leaf_order_wf)
  then obtain c where c: "c \<in> set (flow d)" "n \<in> set (c_content (conts d c))"
    by (auto simp: leaves_of_def)
  with assms(1) have "t_container (texts d n) = c" "\<not> t_removed (texts d n)"
    by (auto simp: wf_doc_def)
  with c show "t_container (texts d n) \<in> set (flow d)"
    and "n \<in> set (siblings_of d n)" and "\<not> t_removed (texts d n)"
    by (simp_all add: siblings_of_def)
qed

lemma leaf_order_member:
  assumes "wf_doc d" and "c \<in> set (flow d)" and "n \<in> set (c_content (conts d c))"
  shows "n \<in> set (leaf_order d)" and "t_container (texts d n) = c"
  using assms by (auto simp: leaf_order_wf leaves_of_def wf_doc_def)

lemma sorted_constant: "\<forall>x \<in> set xs. f x = (k::nat) \<Longrightarrow> sorted (map f xs)"
  by (induction xs) auto

lemma sorted_cidx_aux:
  assumes "distinct (pre @ cs)"
    and "\<forall>c \<in> set cs. \<forall>n \<in> set (c_content (conts d c)). t_container (texts d n) = c"
    and "flow d = pre @ cs"
  shows "sorted (map (cidx d) (leaves_of d cs)) \<and>
         (\<forall>n \<in> set (leaves_of d cs). length pre \<le> cidx d n)"
  using assms
proof (induction cs arbitrary: pre)
  case Nil
  then show ?case by simp
next
  case (Cons c cs)
  from Cons.prems have ih: "sorted (map (cidx d) (leaves_of d cs)) \<and>
         (\<forall>n \<in> set (leaves_of d cs). length (pre @ [c]) \<le> cidx d n)"
    by (intro Cons.IH) auto
  have own: "\<forall>n \<in> set (c_content (conts d c)). cidx d n = length pre"
    using Cons.prems by (auto simp: cidx_def index_of_append_out)
  show ?case using ih own sorted_constant [of "c_content (conts d c)" "cidx d" "length pre"]
    by (auto simp: sorted_append)
qed

lemma sorted_cidx: "wf_doc d \<Longrightarrow> sorted (map (cidx d) (leaf_order d))"
  using sorted_cidx_aux [of "[]" "flow d" d] by (simp add: leaf_order_wf wf_doc_def)

lemma nextText_mono:
  assumes "wf_doc d" and "nextText d n True = Some m"
  shows "m \<in> set (leaf_order d) \<and> cidx d n \<le> cidx d m"
proof -
  let ?xs = "leaf_order d"
  let ?i = "index_of ?xs n"
  from assms(2) have lt: "Suc ?i < length ?xs" and m: "m = ?xs ! Suc ?i"
    by (auto simp: nextText_def Let_def split: if_splits)
  then have "n \<in> set ?xs" using index_of_absent [of n ?xs] by (cases "n \<in> set ?xs") auto
  then have n: "?xs ! ?i = n" by (rule nth_index_of)
  have "map (cidx d) ?xs ! ?i \<le> map (cidx d) ?xs ! Suc ?i"
    using sorted_cidx [OF assms(1)] lt by (intro sorted_nth_mono) auto
  with lt n m show ?thesis by auto
qed

lemma previousText_mono:
  assumes "wf_doc d" and "previousText d n True = Some m"
  shows "m \<in> set (leaf_order d) \<and> cidx d m \<le> cidx d n"
proof -
  let ?xs = "leaf_order d"
  let ?i = "index_of ?xs n"
  from assms(2) have lt: "0 < ?i" "?i < length ?xs" and m: "m = ?xs ! (?i - 1)"
    by (auto simp: previousText_def Let_def split: if_splits)
  then have "n \<in> set ?xs" using index_of_absent [of n ?xs] by (cases "n \<in> set ?xs") auto
  then have n: "?xs ! ?i = n" by (rule nth_index_of)
  have "map (cidx d) ?xs ! (?i - 1) \<le> map (cidx d) ?xs ! ?i"
    using sorted_cidx [OF assms(1)] lt by (intro sorted_nth_mono) auto
  with lt n m show ?thesis by auto
qed

lemma same_frame_refl: "same_frame d d"
  by (simp add: same_frame_def)

lemma same_frame_trans: "same_frame d d' \<Longrightarrow> same_frame d' d'' \<Longrightarrow> same_frame d d''"
  by (simp add: same_frame_def)

lemma same_frame_absorb: "same_frame d (absorb d a b)"
  by (simp add: same_frame_def absorb_def)

lemma same_frame_attributes: "same_frame d d' \<Longrightarrow> same_attributes d' a b = same_attributes d a b"
  by (simp add: same_frame_def same_attributes_def)

lemma same_frame_cidx: "same_frame d d' \<Longrightarrow> cidx d' n = cidx d n"
  by (simp add: same_frame_def cidx_def)

lemma compact_list_frame: "same_frame d d' \<Longrightarrow> compact_list d' xs = compact_list d xs"
  by (induction d xs rule: compact_list.induct) (simp_all add: same_frame_attributes)

lemma defrag_list_frame: "same_frame d (fst (defrag_list d xs))"
proof (induction d xs rule: defrag_list.induct)
  case (3 d a b rest)
  show ?case
  proof (cases "same_attributes d a b")
    case True
    with 3(1) same_frame_absorb [of d a b] show ?thesis
      by (auto intro: same_frame_trans)
  next
    case False
    with 3(2) show ?thesis by (simp add: split_beta)
  qed
qed (simp_all add: same_frame_refl)

lemma defrag_list_conts: "conts (fst (defrag_list d xs)) = conts d"
  by (induction d xs rule: defrag_list.induct) (simp_all add: split_beta absorb_def)

lemma defrag_list_outside: "n \<notin> set xs \<Longrightarrow> texts (fst (defrag_list d xs)) n = texts d n"
  by (induction d xs rule: defrag_list.induct) (auto simp: split_beta absorb_def)

lemma defrag_list_shape:
  "set (snd (defrag_list d xs)) \<subseteq> set xs \<and>
   (xs \<noteq> [] \<longrightarrow> snd (defrag_list d xs) \<noteq> [] \<and> hd (snd (defrag_list d xs)) = hd xs) \<and>
   (xs = [] \<longrightarrow> snd (defrag_list d xs) = [])"
  by (induction d xs rule: defrag_list.induct) (auto simp: split_beta)

lemma defrag_list_distinct: "distinct xs \<Longrightarrow> distinct (snd (defrag_list d xs))"
proof (induction d xs rule: defrag_list.induct)
  case (3 d a b rest)
  show ?case
  proof (cases "same_attributes d a b")
    case True
    with 3 show ?thesis by simp
  next
    case False
    have "set (snd (defrag_list d (b # rest))) \<subseteq> set (b # rest)"
      using defrag_list_shape [of d "b # rest"] by blast
    with False 3 show ?thesis by (auto simp: split_beta)
  qed
qed simp_all

lemma defrag_list_kept:
  "distinct xs \<Longrightarrow> n \<in> set (snd (defrag_list d xs)) \<Longrightarrow>
     t_removed (texts (fst (defrag_list d xs)) n) = t_removed (texts d n)"
proof (induction d xs rule: defrag_list.induct)
  case (3 d a b rest)
  show ?case
  proof (cases "same_attributes d a b")
    case True
    have "set (snd (defrag_list (absorb d a b) (a # rest))) \<subseteq> set (a # rest)"
      using defrag_list_shape [of "absorb d a b" "a # rest"] by blast
    with 3(4) True have "n \<in> set (a # rest)" by auto
    with 3(3) have "n \<noteq> b" by auto
    then have "t_removed (texts (absorb d a b) n) = t_removed (texts d n)"
      by (simp add: absorb_def)
    with 3(1) [OF True] 3(3,4) True show ?thesis by simp
  next
    case False
    show ?thesis
    proof (cases "n = a")
      case True
      with 3(3) have "a \<notin> set (b # rest)" by simp
      then have "texts (fst (defrag_list d (b # rest))) a = texts d a"
        by (rule defrag_list_outside)
      with False True show ?thesis by (simp add: split_beta)
    next
      case na: False
      with 3(2) [OF False] 3(3,4) False show ?thesis by (auto simp: split_beta)
    qed
  qed
qed simp_all

lemma defrag_list_compact: "compact_list (fst (defrag_list d xs)) (snd (defrag_list d xs))"
proof (induction d xs rule: defrag_list.induct)
  case (3 d a b rest)
  show ?case
  proof (cases "same_attributes d a b")
    case True
    with 3(1) show ?thesis by simp
  next
    case False
    let ?r = "defrag_list d (b # rest)"
    from defrag_list_shape [of d "b # rest"]
    obtain ys where ys: "snd ?r = b # ys" by (cases "snd ?r") auto
    have "same_attributes (fst ?r) a b = same_attributes d a b"
      by (rule same_frame_attributes) (rule defrag_list_frame)
    with False 3(2) [OF False] ys show ?thesis by (simp add: split_beta)
  qed
qed simp_all

lemma defrag_list_identity: "compact_list d xs \<Longrightarrow> defrag_list d xs = (d, xs)"
  by (induction d xs rule: defrag_list.induct) auto

lemma evolves_refl: "wf_doc d \<Longrightarrow> evolves d d"
  by (simp add: evolves_def same_frame_refl)

lemma evolves_trans: "evolves d d' \<Longrightarrow> evolves d' d'' \<Longrightarrow> evolves d d''"
  unfolding evolves_def by (auto intro: same_frame_trans)

lemma defrag_cont_content:
  "c_content (conts (defrag_cont c d) c') =
     (if c' = c then snd (defrag_list d (c_content (conts d c))) else c_content (conts d c'))"
  by (simp add: defrag_cont_def split_beta defrag_list_conts)

lemma defrag_cont_removed: "c_removed (conts (defrag_cont c d) c') = c_removed (conts d c')"
  by (simp add: defrag_cont_def split_beta defrag_list_conts)

lemma defrag_cont_texts:
  "texts (defrag_cont c d) = texts (fst (defrag_list d (c_content (conts d c))))"
  by (simp add: defrag_cont_def split_beta)

lemma defrag_cont_frame: "same_frame d (defrag_cont c d)"
  using defrag_list_frame [of d "c_content (conts d c)"]
  by (simp add: same_frame_def defrag_cont_def split_beta)

lemma defrag_cont_compact: "compact (defrag_cont c d) c"
proof -
  let ?r = "defrag_list d (c_content (conts d c))"
  have "same_frame (fst ?r) (defrag_cont c d)"
    by (simp add: same_frame_def defrag_cont_def split_beta)
  then have "compact_list (defrag_cont c d) (snd ?r) = compact_list (fst ?r) (snd ?r)"
    by (rule compact_list_frame)
  then show ?thesis
    by (simp add: compact_def defrag_cont_content defrag_list_compact)
qed

lemma defrag_cont_identity: "compact d c \<Longrightarrow> defrag_cont c d = d"
  by (simp add: compact_def defrag_cont_def defrag_list_identity)

lemma defrag_cont_wf:
  assumes "wf_doc d" and "c \<in> set (flow d)"
  shows "wf_doc (defrag_cont c d)"
proof -
  let ?xs = "c_content (conts d c)"
  let ?r = "defrag_list d ?xs"
  let ?d = "defrag_cont c d"
  have fr: "same_frame d ?d" by (rule defrag_cont_frame)
  then have fl: "flow ?d = flow d" by (simp add: same_frame_def)
  have cont: "\<And>n. t_container (texts ?d n) = t_container (texts d n)"
    using fr by (simp add: same_frame_def)
  have "distinct (c_content (conts ?d c')) \<and>
        (\<forall>n \<in> set (c_content (conts ?d c')).
            t_container (texts ?d n) = c' \<and> \<not> t_removed (texts ?d n))"
    if c': "c' \<in> set (flow d)" for c'
  proof (cases "c' = c")
    case True
    with assms c' have dx: "distinct ?xs"
      and own: "\<forall>n \<in> set ?xs. t_container (texts d n) = c \<and> \<not> t_removed (texts d n)"
      by (auto simp: wf_doc_def)
    have sub: "set (snd ?r) \<subseteq> set ?xs" using defrag_list_shape [of d ?xs] by blast
    have "\<not> t_removed (texts ?d n)" if "n \<in> set (snd ?r)" for n
      using defrag_list_kept [OF dx that] own sub that by (auto simp: defrag_cont_texts)
    with True sub own dx show ?thesis
      by (auto simp: defrag_cont_content cont defrag_list_distinct)
  next
    case False
    have "texts ?d n = texts d n" if "n \<in> set (c_content (conts d c'))" for n
    proof -
      from assms c' that have "t_container (texts d n) = c'" by (auto simp: wf_doc_def)
      moreover have "t_container (texts d m) = c" if "m \<in> set ?xs" for m
        using assms that by (auto simp: wf_doc_def)
      ultimately have "n \<notin> set ?xs" using False by auto
      then show ?thesis by (simp add: defrag_cont_texts defrag_list_outside)
    qed
    with assms c' False show ?thesis
      by (auto simp: defrag_cont_content wf_doc_def)
  qed
  with assms fl show ?thesis by (simp add: wf_doc_def)
qed

lemma defrag_cont_compact_other:
  assumes "compact d c'"
  shows "compact (defrag_cont c d) c'"
proof (cases "c' = c")
  case True
  then show ?thesis by (simp add: defrag_cont_compact)
next
  case False
  have "compact_list (defrag_cont c d) (c_content (conts d c')) =
        compact_list d (c_content (conts d c'))"
    by (rule compact_list_frame) (rule defrag_cont_frame)
  with assms False show ?thesis by (simp add: compact_def defrag_cont_content)
qed

lemma defrag_cont_evolves:
  assumes "wf_doc d" and "c \<in> set (flow d)"
  shows "evolves d (defrag_cont c d)"
proof -
  have "(c_content (conts (defrag_cont c d) c') = []) = (c_content (conts d c') = [])" for c'
    using defrag_list_shape [of d "c_content (conts d c)"]
    by (auto simp: defrag_cont_content)
  then show ?thesis
    unfolding evolves_def
    using assms by (simp add: defrag_cont_frame defrag_cont_wf defrag_cont_removed
        defrag_cont_compact_other)
qed

lemma hd_leaves_of:
  "leaves_of d post \<noteq> [] \<Longrightarrow>
     \<exists>es c' post'. post = es @ c' # post' \<and> (\<forall>e \<in> set es. c_content (conts d e) = []) \<and>
       c_content (conts d c') \<noteq> [] \<and> hd (leaves_of d post) = hd (c_content (conts d c'))"
proof (induction post)
  case Nil
  then show ?case by simp
next
  case (Cons c post)
  show ?case
  proof (cases "c_content (conts d c) = []")
    case True
    with Cons obtain es c' post' where
      "post = es @ c' # post'" "\<forall>e \<in> set es. c_content (conts d e) = []"
      "c_content (conts d c') \<noteq> []" "hd (leaves_of d post) = hd (c_content (conts d c'))"
      by auto
    with True have "c # post = (c # es) @ c' # post' \<and>
        (\<forall>e \<in> set (c # es). c_content (conts d e) = []) \<and>
        c_content (conts d c') \<noteq> [] \<and>
        hd (leaves_of d (c # post)) = hd (c_content (conts d c'))" by simp
    then show ?thesis by blast
  next
    case False
    then have "c # post = [] @ c # post \<and> (\<forall>e \<in> set []. c_content (conts d e) = []) \<and>
        c_content (conts d c) \<noteq> [] \<and>
        hd (leaves_of d (c # post)) = hd (c_content (conts d c))" by simp
    then show ?thesis by blast
  qed
qed

lemma index_of_last:
  assumes "distinct (pre @ xs @ post)" and "xs \<noteq> []"
  shows "index_of (pre @ xs @ post) (last xs) = length pre + length xs - 1"
proof -
  have "last xs \<in> set xs" using assms(2) by simp
  moreover from this assms(1) have "last xs \<notin> set pre" by auto
  moreover have "index_of xs (last xs) = length xs - 1"
    using assms index_of_nth [of xs "length xs - 1"] by (simp add: last_conv_nth)
  ultimately have "index_of (pre @ xs @ post) (last xs) = length pre + (length xs - 1)"
    by (simp add: index_of_append_out index_of_append_in)
  moreover have "0 < length xs" using assms(2) by simp
  ultimately show ?thesis by arith
qed

lemma last_child_next:
  assumes "wf_doc d" and "c \<in> set (flow d)" and "c_content (conts d c) \<noteq> []"
  shows "case nextText d (last (c_content (conts d c))) True of
           None \<Rightarrow>
             \<forall>c' \<in> set (flow d). index_of (flow d) c < index_of (flow d) c' \<longrightarrow>
                c_content (conts d c') = []
         | Some n \<Rightarrow>
             n \<in> set (leaf_order d) \<and> index_of (flow d) c < cidx d n \<and>
             (\<forall>c' \<in> set (flow d).
                index_of (flow d) c < index_of (flow d) c' \<and> index_of (flow d) c' < cidx d n \<longrightarrow>
                c_content (conts d c') = [])"
proof -
  from assms(2) obtain pre post where fl: "flow d = pre @ c # post"
    by (auto dest: split_list)
  from assms(1) have df: "distinct (flow d)" by (simp add: wf_doc_def)
  with fl have cp: "c \<notin> set pre" "c \<notin> set post" by auto
  have ic: "index_of (flow d) c = length pre"
    using cp by (simp add: fl index_of_append_out)
  let ?P = "leaves_of d pre" and ?X = "c_content (conts d c)" and ?Q = "leaves_of d post"
  have lo: "leaf_order d = ?P @ ?X @ ?Q"
    using assms(1) by (simp add: leaf_order_wf fl)
  have dl: "distinct (?P @ ?X @ ?Q)"
    using distinct_leaf_order [of d] by (simp add: lo)
  have il: "Suc (index_of (leaf_order d) (last ?X)) = length ?P + length ?X"
    using index_of_last [OF dl assms(3)] assms(3) by (simp add: lo)
  have later: "c' \<in> set post \<and> index_of (flow d) c' = Suc (length pre + index_of post c')"
    if "c' \<in> set (flow d)" "index_of (flow d) c < index_of (flow d) c'" for c'
  proof -
    have "c' \<notin> set pre"
    proof
      assume "c' \<in> set pre"
      then have "index_of (flow d) c' < length pre"
        by (simp add: fl index_of_append_in index_of_less)
      with that(2) ic show False by simp
    qed
    moreover have "c' \<noteq> c" using that(2) by auto
    ultimately show ?thesis using that(1) by (auto simp: fl index_of_append_out)
  qed
  show ?thesis
  proof (cases "?Q = []")
    case True
    then have "\<forall>c' \<in> set post. c_content (conts d c') = []"
      by (simp add: leaves_of_def)
    moreover have "nextText d (last ?X) True = None"
      using True il by (simp add: nextText_def Let_def lo)
    ultimately show ?thesis using later by auto
  next
    case False
    from hd_leaves_of [OF False] obtain es c2 post' where
      post: "post = es @ c2 # post'" and es: "\<forall>e \<in> set es. c_content (conts d e) = []"
      and ne: "c_content (conts d c2) \<noteq> []" and hd: "hd ?Q = hd (c_content (conts d c2))"
      by blast
    let ?n = "hd (c_content (conts d c2))"
    have nx: "nextText d (last ?X) True = Some ?n"
      using False il hd by (simp add: nextText_def Let_def lo nth_append hd_conv_nth)
    have c2: "c2 \<in> set (flow d)" by (simp add: fl post)
    have n_in: "?n \<in> set (c_content (conts d c2))" using ne by simp
    have n_lo: "?n \<in> set (leaf_order d)" and n_c: "t_container (texts d ?n) = c2"
      using leaf_order_member [OF assms(1) c2 n_in] by simp_all
    have c2es: "c2 \<notin> set es" "c2 \<notin> set pre" "c2 \<noteq> c"
      using df by (auto simp: fl post)
    have i2: "cidx d ?n = Suc (length pre + length es)"
      using c2es by (simp add: cidx_def n_c fl post index_of_append_out)
    have "c_content (conts d c') = []"
      if "c' \<in> set (flow d)" "index_of (flow d) c < index_of (flow d) c'"
        "index_of (flow d) c' < cidx d ?n" for c'
    proof -
      from later [OF that(1,2)] that(3) have "index_of post c' < length es"
        by (simp add: i2)
      then have "c' \<in> set es"
        by (cases "c' \<in> set es") (auto simp: post index_of_append_out)
      with es show ?thesis by simp
    qed
    with nx n_lo i2 ic show ?thesis by simp
  qed
qed

lemma compare_cont_less: "compare_cont d c e < 0 \<longleftrightarrow> index_of (flow d) c \<le> cidx d e"
  by (auto simp: compare_cont_def compare_place_def place_cont_def place_text_def cidx_def)

lemma evolves_flow: "evolves d d' \<Longrightarrow> flow d' = flow d"
  by (simp add: evolves_def same_frame_def)

lemma evolves_cidx: "evolves d d' \<Longrightarrow> cidx d' n = cidx d n"
  by (simp add: evolves_def same_frame_cidx)

lemma compact_empty: "c_content (conts d c) = [] \<Longrightarrow> compact d c"
  by (simp add: compact_def)

lemma containers_loop_defrag:
  assumes "wf_doc d" and "c \<in> set (flow d)" and "c_content (conts d c) \<noteq> []"
  shows "\<exists>d'. containers_loop defrag_cont e (Some c) d = Some (Inr d') \<and> evolves d d' \<and>
           (\<forall>c' \<in> set (flow d).
              index_of (flow d) c \<le> index_of (flow d) c' \<and> index_of (flow d) c' \<le> cidx d e \<longrightarrow>
              compact d' c') \<and>
           ((\<forall>c' \<in> set (flow d).
              index_of (flow d) c \<le> index_of (flow d) c' \<and> index_of (flow d) c' \<le> cidx d e \<longrightarrow>
              compact d c') \<longrightarrow> d' = d)"
  using assms
proof (induction "length (flow d) - index_of (flow d) c" arbitrary: d c rule: less_induct)
  case less
  let ?i = "index_of (flow d) c"
  show ?case
  proof (cases "?i \<le> cidx d e")
    case False
    then have "containers_loop defrag_cont e (Some c) d = Some (Inr d)"
      by (subst containers_loop.simps) (simp add: compare_cont_less)
    with False less.prems(1) show ?thesis by (auto simp: evolves_refl)
  next
    case True
    let ?d1 = "defrag_cont c d"
    have ev: "evolves d ?d1" using less.prems(1,2) by (rule defrag_cont_evolves)
    then have wf1: "wf_doc ?d1" and fl1: "flow ?d1 = flow d"
      and ne1: "c_content (conts ?d1 c) \<noteq> []"
      using less.prems(3) by (simp_all add: evolves_def same_frame_def)
    have c1: "compact ?d1 c" by (rule defrag_cont_compact)
    let ?l = "last (c_content (conts ?d1 c))"
    have lc: "lastChild ?d1 c = Some ?l"
      using ne1 by (simp add: lastChild_def split: list.splits)
    have unfold: "containers_loop defrag_cont e (Some c) d =
        containers_loop defrag_cont e
          (map_option (\<lambda>n. t_container (texts ?d1 n)) (nextText ?d1 ?l True)) ?d1"
      using True lc
      by (subst containers_loop.simps) (simp add: compare_cont_less Let_def next_node_def)
    have same: "?d1 = d"
      if "\<forall>c' \<in> set (flow d). ?i \<le> index_of (flow d) c' \<and> index_of (flow d) c' \<le> cidx d e \<longrightarrow>
            compact d c'"
      using that less.prems(2) True by (simp add: defrag_cont_identity)
    have c1in: "c \<in> set (flow ?d1)" using less.prems(2) by (simp add: fl1)
    have step: "case nextText ?d1 ?l True of
           None \<Rightarrow>
             \<forall>c' \<in> set (flow d). ?i < index_of (flow d) c' \<longrightarrow> c_content (conts ?d1 c') = []
         | Some n \<Rightarrow>
             n \<in> set (leaf_order ?d1) \<and> ?i < cidx ?d1 n \<and>
             (\<forall>c' \<in> set (flow d).
                ?i < index_of (flow d) c' \<and> index_of (flow d) c' < cidx ?d1 n \<longrightarrow>
                c_content (conts ?d1 c') = [])"
      using last_child_next [OF wf1 c1in ne1] unfolding fl1 .
    show ?thesis
    proof (cases "nextText ?d1 ?l True")
      case None
      moreover have "containers_loop defrag_cont e None ?d1 = Some (Inr ?d1)"
        by (subst containers_loop.simps) simp
      ultimately have res: "containers_loop defrag_cont e (Some c) d = Some (Inr ?d1)"
        by (simp add: unfold)
      have "compact ?d1 c'"
        if "c' \<in> set (flow d)" "?i \<le> index_of (flow d) c'" for c'
      proof (cases "c' = c")
        case True
        with c1 show ?thesis by simp
      next
        case False
        have "?i \<noteq> index_of (flow d) c'"
          using False that(1) less.prems(2) nth_index_of [of c "flow d"] nth_index_of [of c' "flow d"]
          by auto
        with that step None show ?thesis by (auto intro: compact_empty)
      qed
      with res ev same show ?thesis by auto
    next
      case (Some n)
      let ?c2 = "t_container (texts ?d1 n)"
      from step Some have n_lo: "n \<in> set (leaf_order ?d1)" and lt: "?i < cidx ?d1 n"
        and gap: "\<forall>c' \<in> set (flow d).
            ?i < index_of (flow d) c' \<and> index_of (flow d) c' < cidx ?d1 n \<longrightarrow>
            c_content (conts ?d1 c') = []"
        by simp_all
      have c2: "?c2 \<in> set (flow ?d1)" and n_c2: "n \<in> set (c_content (conts ?d1 ?c2))"
        using in_leaf_order [OF wf1 n_lo] by (simp_all add: siblings_of_def)
      then have ne2: "c_content (conts ?d1 ?c2) \<noteq> []" by auto
      have i2: "index_of (flow d) ?c2 = cidx ?d1 n" by (simp add: cidx_def fl1)
      have "?i < length (flow d)" using less.prems(2) by (rule index_of_less)
      with lt have dec: "length (flow ?d1) - index_of (flow ?d1) ?c2 < length (flow d) - ?i"
        by (simp add: i2 fl1)
      from less.hyps [OF dec wf1 c2 ne2] obtain d' where
        loop: "containers_loop defrag_cont e (Some ?c2) ?d1 = Some (Inr d')"
        and ev': "evolves ?d1 d'"
        and rng: "\<forall>c' \<in> set (flow d).
            cidx ?d1 n \<le> index_of (flow d) c' \<and> index_of (flow d) c' \<le> cidx ?d1 e \<longrightarrow>
            compact d' c'"
        and idem: "(\<forall>c' \<in> set (flow d).
            cidx ?d1 n \<le> index_of (flow d) c' \<and> index_of (flow d) c' \<le> cidx ?d1 e \<longrightarrow>
            compact ?d1 c') \<longrightarrow> d' = ?d1"
        by (auto simp: fl1 i2)
      have e1: "cidx ?d1 e = cidx d e" using ev by (rule evolves_cidx)
      have res: "containers_loop defrag_cont e (Some c) d = Some (Inr d')"
        using Some loop by (simp add: unfold)
      have keep: "compact ?d1 c' \<Longrightarrow> compact d' c'" for c'
        using ev' by (simp add: evolves_def)
      have all: "compact d' c'"
        if "c' \<in> set (flow d)" "?i \<le> index_of (flow d) c'" "index_of (flow d) c' \<le> cidx d e" for c'
      proof (cases "c' = c")
        case True
        with c1 keep show ?thesis by simp
      next
        case False
        have "?i \<noteq> index_of (flow d) c'"
          using False that(1) less.prems(2) nth_index_of [of c "flow d"] nth_index_of [of c' "flow d"]
          by auto
        with that(2) have gt: "?i < index_of (flow d) c'" by simp
        show ?thesis
        proof (cases "index_of (flow d) c' < cidx ?d1 n")
          case True
          with gap gt that(1) have "c_content (conts ?d1 c') = []" by simp
          then show ?thesis by (intro keep compact_empty)
        next
          case False
          with rng that(1,3) e1 show ?thesis by simp
        qed
      qed
      have "d' = d"
        if h: "\<forall>c' \<in> set (flow d). ?i \<le> index_of (flow d) c' \<and> index_of (flow d) c' \<le> cidx d e \<longrightarrow>
            compact d c'"
      proof -
        have d1: "?d1 = d" using h by (rule same)
        have "\<forall>c' \<in> set (flow d).
            cidx ?d1 n \<le> index_of (flow d) c' \<and> index_of (flow d) c' \<le> cidx ?d1 e \<longrightarrow>
            compact ?d1 c'"
          using h lt d1 e1 by auto
        with idem d1 show ?thesis by simp
      qed
      with res all ev ev' show ?thesis by (auto intro: evolves_trans)
    qed
  qed
qed

lemma relPoint_loop_member: "relPoint_loop d xs q = (Some n, r) \<Longrightarrow> n \<in> set xs"
  by (induction xs arbitrary: q) (auto split: if_splits)

lemma relPoint_member:
  "fst (relPoint d (Some c) q) = Some n \<Longrightarrow> n \<in> set (c_content (conts d c))"
  using relPoint_loop_member [of d "c_content (conts d c)" q n "snd (relPoint d (Some c) q)"]
  by (cases "relPoint_loop d (c_content (conts d c)) q") (simp add: relPoint_def)

lemma spans_points:
  assumes "wf_doc d" and "ca \<in> set (flow d)" and "cb \<in> set (flow d)"
    and "start s = fst (relPoint d (Some ca) p)" and "end_node s = fst (relPoint d (Some cb) q)"
  shows "spans d (index_of (flow d) ca) (index_of (flow d) cb) s"
proof (cases "start s")
  case None
  then show ?thesis by (simp add: spans_def)
next
  case a: (Some a)
  show ?thesis
  proof (cases "end_node s")
    case None
    with a show ?thesis by (simp add: spans_def)
  next
    case b: (Some b)
    from a assms(4) have "a \<in> set (c_content (conts d ca))" by (auto dest: relPoint_member)
    from leaf_order_member [OF assms(1,2) this]
    have A: "a \<in> set (leaf_order d)" "cidx d a = index_of (flow d) ca" by (simp_all add: cidx_def)
    from b assms(5) have "b \<in> set (c_content (conts d cb))" by (auto dest: relPoint_member)
    from leaf_order_member [OF assms(1,3) this]
    have B: "b \<in> set (leaf_order d)" "cidx d b = index_of (flow d) cb" by (simp_all add: cidx_def)
    from a b A B show ?thesis by (simp add: spans_def)
  qed
qed

lemma spans_empty: "start s = None \<Longrightarrow> spans d lo hi s"
  by (simp add: spans_def)

lemma restore_save_spans:
  assumes "wf_doc d'" and "start s = Some a" and "end_node s = Some b"
    and "anchored d a" and "anchored d b"
    and "t_container (texts d a) \<in> set (flow d')" and "t_container (texts d b) \<in> set (flow d')"
  shows "\<exists>s'. restore d' (save d s) = Inr s' \<and>
           spans d' (index_of (flow d') (t_container (texts d a)))
             (index_of (flow d') (t_container (texts d b))) s'"
proof -
  let ?ca = "t_container (texts d a)" and ?cb = "t_container (texts d b)"
  obtain p where A: "absPoint d (Some a) (startOfs s) = (Some ?ca, p)"
    using absPoint_anchored [OF assms(4), of "startOfs s"]
    by (cases "absPoint d (Some a) (startOfs s)") simp
  obtain q where B: "absPoint d (Some b) (endOfs s) = (Some ?cb, q)"
    using absPoint_anchored [OF assms(5), of "endOfs s"]
    by (cases "absPoint d (Some b) (endOfs s)") simp
  let ?lo = "index_of (flow d') ?ca" and ?hi = "index_of (flow d') ?cb"
  show ?thesis
  proof (cases "collapsed s")
    case True
    then have eq: "b = a" using assms(2,3) by (auto simp: collapsed_def single_def)
    let ?r = "relPoint d' (Some ?ca) p"
    let ?s' = "setCursor d' (s\<lparr>stack := stack s\<rparr>) (fst ?r) (snd ?r)"
    have sp: "spans d' ?lo ?hi ?s'"
      using assms(1,6,7) unfolding eq
      by (rule spans_points [where p = p and q = p])
        (simp_all add: setCursor_def set_sel_def setStart_def setEnd_def)
    have "restore d' (save d s) =
        (if c_removed (conts d' ?ca) then Inr (set_sel d' (s\<lparr>stack := stack s\<rparr>) None 0 None 0)
         else Inr ?s')"
      using True assms(2,3) A by (simp add: save_def restore_def Let_def eq)
    with sp show ?thesis
      by (auto simp: spans_empty set_sel_def setStart_def setEnd_def)
  next
    case False
    let ?r = "relPoint d' (Some ?ca) p" and ?t = "relPoint d' (Some ?cb) q"
    let ?s' = "setEnd d' (setStart d' (s\<lparr>stack := stack s\<rparr>) (fst ?r) (snd ?r)) (fst ?t) (snd ?t)"
    have sp: "spans d' ?lo ?hi ?s'"
      using assms(1,6,7)
      by (rule spans_points [where p = p and q = q]) (simp_all add: setStart_def setEnd_def)
    have "restore d' (save d s) =
        (if c_removed (conts d' ?ca) \<or> c_removed (conts d' ?cb)
         then Inr (set_sel d' (s\<lparr>stack := stack s\<rparr>) None 0 None 0)
         else Inr ?s')"
      using False assms(2,3) A B by (simp add: save_def restore_def Let_def)
    with sp show ?thesis
      by (auto simp: spans_empty set_sel_def setStart_def setEnd_def)
  qed
qed

lemma trim_spans:
  assumes "wf_doc d" and "spans d lo hi s"
  shows "spans d lo hi (trim d s)"
proof (cases "valid s")
  case False
  then show ?thesis using assms(2) by (auto simp: trim_def valid_def split: option.splits)
next
  case True
  then obtain a b where ab: "start s = Some a" "end_node s = Some b"
    by (auto simp: valid_def)
  with assms(2) have in_a: "a \<in> set (leaf_order d)" "lo \<le> cidx d a"
    and in_b: "b \<in> set (leaf_order d)" "cidx d b \<le> hi"
    by (simp_all add: spans_def)
  let ?s1 = "if endOfs s = 0 then
               (case previousText d b True of Some e \<Rightarrow> setEnd d s (Some e) (- 1) | None \<Rightarrow> s)
             else s"
  have st1: "start ?s1 = Some a"
    using ab by (simp add: setEnd_def split: option.splits)
  have "\<exists>b1. end_node ?s1 = Some b1 \<and> b1 \<in> set (leaf_order d) \<and> cidx d b1 \<le> hi"
    using ab in_b previousText_mono [OF assms(1), of b]
    by (auto simp: setEnd_def split: option.splits)
  then obtain b1 where b1: "end_node ?s1 = Some b1" "b1 \<in> set (leaf_order d)" "cidx d b1 \<le> hi"
    by blast
  have sp1: "spans d lo hi ?s1" using st1 b1 in_a by (simp add: spans_def)
  have tr: "trim d s =
      (if collapsed ?s1 then ?s1
       else if startOfs ?s1 = length_text d a then
         (case nextText d a True of Some n \<Rightarrow> setStart d ?s1 (Some n) 0 | None \<Rightarrow> ?s1)
       else ?s1)"
    using ab st1 by (simp add: trim_def Let_def)
  have "spans d lo hi (setStart d ?s1 (Some n) 0)" if "nextText d a True = Some n" for n
    using nextText_mono [OF assms(1) that] b1 in_a
    by (simp add: spans_def setStart_def)
  with sp1 show ?thesis unfolding tr by (auto split: option.splits)
qed

lemma defrag_run:
  assumes "wf_doc d" and "start s = Some a" and "end_node s = Some b"
    and "a \<in> set (leaf_order d)" and "b \<in> set (leaf_order d)"
  shows "\<exists>d1 s1. defrag d s = Some (Inr (d1, s1)) \<and> evolves d d1 \<and>
           spans d1 (cidx d a) (cidx d b) s1 \<and>
           (\<forall>c' \<in> set (flow d).
              cidx d a \<le> index_of (flow d) c' \<and> index_of (flow d) c' \<le> cidx d b \<longrightarrow>
              compact d1 c') \<and>
           ((\<forall>c' \<in> set (flow d).
              cidx d a \<le> index_of (flow d) c' \<and> index_of (flow d) c' \<le> cidx d b \<longrightarrow>
              compact d c') \<longrightarrow> d1 = d)"
proof -
  let ?ca = "t_container (texts d a)" and ?cb = "t_container (texts d b)"
  note A = in_leaf_order [OF assms(1,4)]
  note B = in_leaf_order [OF assms(1,5)]
  have anc: "anchored d a" "anchored d b"
    using A B by (simp_all add: anchored_def)
  have ne: "c_content (conts d ?ca) \<noteq> []"
    using A(2) by (auto simp: siblings_of_def)
  from containers_loop_defrag [OF assms(1) A(1) ne, of b] obtain d1 where
    loop: "containers_loop defrag_cont b (Some ?ca) d = Some (Inr d1)"
    and ev: "evolves d d1"
    and rng: "\<forall>c' \<in> set (flow d).
        cidx d a \<le> index_of (flow d) c' \<and> index_of (flow d) c' \<le> cidx d b \<longrightarrow> compact d1 c'"
    and idem: "(\<forall>c' \<in> set (flow d).
        cidx d a \<le> index_of (flow d) c' \<and> index_of (flow d) c' \<le> cidx d b \<longrightarrow> compact d c') \<longrightarrow>
        d1 = d"
    unfolding cidx_def by blast
  have wf1: "wf_doc d1" and fl1: "flow d1 = flow d"
    using ev by (simp_all add: evolves_def same_frame_def)
  have sv: "start (save d s) = Some a" "end_node (save d s) = Some b"
    using assms(2,3) by (simp_all add: save_def Let_def)
  have cs: "containers defrag_cont d (save d s) = Some (Inr d1)"
    using sv loop by (simp add: containers_def)
  from restore_save_spans [OF wf1 assms(2,3) anc] A(1) B(1) obtain s2 where
    rs: "restore d1 (save d s) = Inr s2" and sp: "spans d1 (cidx d a) (cidx d b) s2"
    by (auto simp: fl1 cidx_def)
  have "defrag d s = Some (Inr (d1, trim d1 s2))"
    using assms(2,3) cs rs by (simp add: defrag_def valid_def Let_def)
  with ev rng idem trim_spans [OF wf1 sp] show ?thesis by blast
qed

text \<open>
  Claim C8: \<open>defrag()\<close> is idempotent.  On a well-formed tree, for a valid selection
  whose endpoints are leaves of the tree, \<open>defrag()\<close> returns, and a second \<open>defrag()\<close>
  right after it returns too and leaves the tree the first one produced as it is: the same
  number of leaves with the same contents.
\<close>

theorem defrag_idempotent:
  assumes "wf_doc d" and "start s = Some a" and "end_node s = Some b"
    and "a \<in> set (leaf_order d)" and "b \<in> set (leaf_order d)"
  shows "\<exists>d1 s1 d2 s2.
           defrag d s = Some (Inr (d1, s1)) \<and> defrag d1 s1 = Some (Inr (d2, s2)) \<and> d2 = d1 \<and>
           length (leaf_order d2) = length (leaf_order d1) \<and> leaf_values d2 = leaf_values d1"
proof -
  from defrag_run [OF assms] obtain d1 s1 where
    run: "defrag d s = Some (Inr (d1, s1))" and ev: "evolves d d1"
    and sp: "spans d1 (cidx d a) (cidx d b) s1"
    and rng: "\<forall>c' \<in> set (flow d).
        cidx d a \<le> index_of (flow d) c' \<and> index_of (flow d) c' \<le> cidx d b \<longrightarrow> compact d1 c'"
    by blast
  have wf1: "wf_doc d1" and fl1: "flow d1 = flow d"
    using ev by (simp_all add: evolves_def same_frame_def)
  have "\<exists>s2. defrag d1 s1 = Some (Inr (d1, s2))"
  proof (cases "valid s1")
    case False
    then show ?thesis by (simp add: defrag_def)
  next
    case True
    then obtain a1 b1 where ab: "start s1 = Some a1" "end_node s1 = Some b1"
      by (auto simp: valid_def)
    with sp have in1: "a1 \<in> set (leaf_order d1)" "b1 \<in> set (leaf_order d1)"
      and lo: "cidx d a \<le> cidx d1 a1" and hi: "cidx d1 b1 \<le> cidx d b"
      by (simp_all add: spans_def)
    from defrag_run [OF wf1 ab in1] obtain d2 s2 where
      run2: "defrag d1 s1 = Some (Inr (d2, s2))"
      and idem: "(\<forall>c' \<in> set (flow d1).
          cidx d1 a1 \<le> index_of (flow d1) c' \<and> index_of (flow d1) c' \<le> cidx d1 b1 \<longrightarrow>
          compact d1 c') \<longrightarrow> d2 = d1"
      by blast
    have "d2 = d1" using idem rng lo hi by (auto simp: fl1)
    with run2 show ?thesis by blast
  qed
  with run show ?thesis by blast
qed

theorem defrag_idempotent_witness:
  "wf_doc doc_fragmented \<and> start (range_sel 0 1 2 1) = Some 0 \<and>
   end_node (range_sel 0 1 2 1) = Some 2 \<and> leaf_order doc_fragmented = [0, 1, 2] \<and>
   (\<exists>d1 s1 d2 s2.
      defrag doc_fragmented (range_sel 0 1 2 1) = Some (Inr (d1, s1)) \<and>
      defrag d1 s1 = Some (Inr (d2, s2)) \<and> d2 = d1 \<and>
      length (leaf_order d2) = length (leaf_order d1) \<and> leaf_values d2 = leaf_values d1)"
proof -
  have h1: "wf_doc doc_fragmented"
    by (simp add: wf_doc_def doc_fragmented_def leaf_def box_def)
  have h2: "start (range_sel 0 1 2 1) = Some 0" and h3: "end_node (range_sel 0 1 2 1) = Some 2"
    by (simp_all add: range_sel_def)
  have lo: "leaf_order doc_fragmented = [0, 1, 2]"
    by (simp add: leaf_order_def doc_fragmented_def box_def)
  then have h4: "0 \<in> set (leaf_order doc_fragmented)" and h5: "2 \<in> set (leaf_order doc_fragmented)"
    by simp_all
  from defrag_idempotent [OF h1 h2 h3 h4 h5] h1 h2 h3 lo show ?thesis
    by blast
qed

text \<open>
  On that tree the first \<open>defrag()\<close> merges \<open>ab\<close> and \<open>cd\<close>: two leaves are left, and the
  selection starts in the merged leaf.
\<close>

lemma defrag_merges_example:
  "\<exists>d s. defrag doc_fragmented (range_sel 0 1 2 1) = Some (Inr (d, s)) \<and>
         leaf_order d = [0, 2] \<and> leaf_values d = [''abcd'', ''ef''] \<and>
         start s = Some 0 \<and> startOfs s = 1 \<and> end_node s = Some 2 \<and> endOfs s = 1"
  apply (simp add: defrag_def valid_def range_sel_def save_def collapsed_def single_def
      absPoint_def siblings_of_def doc_fragmented_def leaf_def box_def Let_def length_text_def
      containers_def)
  apply (subst containers_loop.simps)
  apply (simp add: compare_cont_def compare_place_def place_cont_def place_text_def
      siblings_of_def defrag_cont_def same_attributes_def absorb_def lastChild_def
      next_node_def nextText_def leaf_order_def)
  apply (subst containers_loop.simps)
  apply (simp add: compare_cont_def compare_place_def place_cont_def place_text_def
      siblings_of_def defrag_cont_def same_attributes_def absorb_def lastChild_def
      next_node_def nextText_def leaf_order_def containers_loop_done)
  apply (simp add: restore_def relPoint_def length_text_def setStart_def setEnd_def trim_def
      collapsed_def single_def valid_def leaf_order_def leaf_values_def)
  done

subsection \<open>Linking with a falsy url\<close>
















text \<open>The leaf then has the attributes of the text before it and is merged into it.\<close>

lemma link_empty_url_example:
  "\<exists>d s. link plain_prims doc_one_item (range_sel 1 0 1 4) (Some []) = Some (Inr (d, s)) \<and>
         t_type (texts d 1) = Text \<and> t_url (texts d 1) = None \<and>
         leaf_order d = [0] \<and> leaf_values d = [''abcdefg'']"
  apply (simp add: link_def falsy_def unlink_def valid_def range_sel_def nodes_def)
  apply (subst nodes_loop.simps)
  apply (simp add: compare_text_def link_text_def nextText_def leaf_order_def doc_one_item_def
      leaf_def box_def nodes_loop_done)
  apply (simp add: defrag_def valid_def save_def collapsed_def single_def
      absPoint_def siblings_of_def Let_def length_text_def containers_def)
  apply (subst containers_loop.simps)
  apply (simp add: compare_cont_def compare_place_def place_cont_def place_text_def
      siblings_of_def defrag_cont_def same_attributes_def absorb_def lastChild_def
      next_node_def nextText_def leaf_order_def containers_loop_done)
  apply (simp add: restore_def relPoint_def length_text_def setStart_def setEnd_def trim_def
      collapsed_def single_def valid_def leaf_order_def leaf_values_def previousText_def)
  done

end
